theory Spec2Isabelle
  imports Main
begin

section \<open>Values\<close>

text \<open>
  The three status strings of \<^verbatim>\<open>PromiseImpl.js\<close> (lines 5-7).
\<close>

datatype status = STATUS_PENDING | STATUS_FULFILLED | STATUS_REJECTED

text \<open>
  JavaScript values, as far as the promise code looks at them.  A promise object is
  its address in the heap; an object or a function carries what reading its
  \<^verbatim>\<open>then\<close> member gives:
  \<^item> \<open>ThenNone\<close>: no such member, or one that is not a function;
  \<^item> \<open>ThenGetterThrows e\<close>: reading the member throws \<open>e\<close>;
  \<^item> \<open>ThenFn acts\<close>: a function; called with two callbacks it performs \<open>acts\<close>
    in order.
  The body of a foreign \<^verbatim>\<open>then\<close> is a script: it calls its first argument
  (\<open>CallFirst\<close>), its second argument (\<open>CallSecond\<close>), throws (\<open>Throw\<close>, which
  ends the script), or defers a block of further actions with a timer (\<open>Later\<close>).
  A thenable that is written inside the body of another \<^verbatim>\<open>then\<close>, as in
  \<^verbatim>\<open>{ then(res, rej) { res({ then(res2, rej2) { rej(0); res2(1) } }) } }\<close>, can also call
  the arguments of the \<^verbatim>\<open>then\<close> around it: \<open>CallOuterFirst n\<close> and \<open>CallOuterSecond n\<close>
  call the first and the second argument of the \<open>n\<close>-th \<^verbatim>\<open>then\<close> around the one that
  is running, counted from the inside (0 is the nearest).
  \<open>VArr\<close> is an array given by the caller, \<open>VRes c\<close> is the array \<^verbatim>\<open>res\<close> created by
  the \<open>c\<close>-th call of \<^verbatim>\<open>all\<close> (a reference: the array is mutated after it has been
  handed out), \<open>VEmpty\<close> is an empty slot of an array, \<open>VOutcome\<close> is the object
  literal of \<^verbatim>\<open>allSettled\<close>, \<open>VTypeError\<close> a \<^verbatim>\<open>TypeError\<close> object with its message.
  Iterables other than arrays and strings (sets, maps, generators) are not modelled.
\<close>

datatype val =
    VUndef
  | VNull
  | VBool bool
  | VNum int
  | VStr string
  | VPromise nat
  | VObj thenp
  | VFunc thenp
  | VArr "val list"
  | VRes nat
  | VEmpty
  | VOutcome status val
  | VTypeError string
and thenp =
    ThenNone
  | ThenGetterThrows val
  | ThenFn "action list"
and action =
    CallFirst val
  | CallSecond val
  | Throw val
  | Later "action list"
  | CallOuterFirst nat val
  | CallOuterSecond nat val

subsection \<open>What the code asks of a value\<close>

text \<open>
  The tests \<^verbatim>\<open>x instanceof PromiseImpl\<close>, \<^verbatim>\<open>typeof x === 'object'\<close> (with
  \<^verbatim>\<open>x !== null\<close>), \<^verbatim>\<open>typeof x === 'function'\<close> and the read of \<^verbatim>\<open>x.then\<close>, in one
  function: \<open>Instance q\<close> is a promise of this class, \<open>Object tp\<close> and \<open>Function tp\<close> are
  any other object or function with its \<^verbatim>\<open>then\<close> member, \<open>Primitive\<close> is the rest.  Every
  falsy value is a primitive, and no primitive has a callable \<^verbatim>\<open>then\<close>.
\<close>

datatype shape = Primitive | Instance nat | Object thenp | Function thenp

fun shape_of :: "val \<Rightarrow> shape" where
  "shape_of (VPromise q) = Instance q"
| "shape_of (VObj tp) = Object tp"
| "shape_of (VFunc tp) = Function tp"
| "shape_of (VArr xs) = Object ThenNone"
| "shape_of (VRes c) = Object ThenNone"
| "shape_of (VOutcome s v) = Object ThenNone"
| "shape_of (VTypeError m) = Object ThenNone"
| "shape_of VUndef = Primitive"
| "shape_of VNull = Primitive"
| "shape_of (VBool b) = Primitive"
| "shape_of (VNum n) = Primitive"
| "shape_of (VStr s) = Primitive"
| "shape_of VEmpty = Primitive"

subsection \<open>Closures\<close>

text \<open>
  The two settlement capabilities of a promise, the closures \<^verbatim>\<open>_resolve\<close> (line 135) and
  \<^verbatim>\<open>_reject\<close> (line 158) of the constructor; the number is the promise (\<^verbatim>\<open>this\<close>).
  Every \<^verbatim>\<open>resolve\<close> and \<^verbatim>\<open>reject\<close> that the source passes around is one of them.
\<close>

datatype settler = Resolve_of nat | Reject_of nat

text \<open>
  The functions that the source passes to a \<^verbatim>\<open>then\<close>, one constructor per arrow
  function, with the variables it captures:
  \<^item> \<open>Default_onFulfilled\<close>, \<open>Default_onRejected\<close>: lines 185 and 188;
  \<^item> \<open>UserFn i f\<close>: a handler of the caller, a pure function that returns (\<open>Inr\<close>) or
    throws (\<open>Inl\<close>); \<open>i\<close> names it in the log of invocations;
  \<^item> \<open>Adopt_value promise resolve reject\<close>, \<open>Adopt_reason reject\<close>: lines 35 and 36;
  \<^item> \<open>Nested_value p\<close>, \<open>Nested_reason p\<close>: lines 140 and 141;
  \<^item> \<open>Static_value p\<close>, \<open>Static_reason p\<close>: lines 280 and 281;
  \<^item> \<open>All_value c i\<close>, \<open>All_reason p\<close>: lines 325 and 326 (\<open>c\<close> is the call of
    \<^verbatim>\<open>all\<close> whose \<^verbatim>\<open>res\<close> and \<^verbatim>\<open>fulfilledCount\<close> are captured);
  \<^item> \<open>Race_value p\<close>, \<open>Race_reason p\<close>: lines 350 and 351;
  \<^item> \<open>Settled_value\<close>, \<open>Settled_reason\<close>: lines 372 and 373.
\<close>

datatype handler =
    Default_onFulfilled
  | Default_onRejected
  | UserFn nat "val \<Rightarrow> val + val"
  | Adopt_value nat settler settler
  | Adopt_reason settler
  | Nested_value nat
  | Nested_reason nat
  | Static_value nat
  | Static_reason nat
  | All_value nat nat
  | All_reason nat
  | Race_value nat
  | Race_reason nat
  | Settled_value
  | Settled_reason

text \<open>
  The functions given to \<^verbatim>\<open>setTimeout\<close>:
  \<^item> \<open>Run_onFulfilled this promise2 onFulfilled\<close>: lines 196-211 and 233-242;
  \<^item> \<open>Run_onRejected this promise2 onRejected\<close>: lines 219-228 and 246-255;
  \<^item> \<open>Later_guarded acts called promise resolve reject env\<close>: a block deferred by a foreign
    \<^verbatim>\<open>then\<close> that was called by the resolution procedure (its callbacks are those of
    lines 61 and 78, sharing the flag \<^verbatim>\<open>called\<close>; \<open>env\<close> is explained below);
  \<^item> \<open>Later_plain acts onFulfilled onRejected\<close>: a block deferred by a foreign
    \<^verbatim>\<open>then\<close> that was called with two handlers directly (lines 279, 324, 349).
\<close>

text \<open>
  One call of a foreign \<^verbatim>\<open>then\<close> by the resolution procedure: the variables that the
  closures of lines 61 and 78 capture, namely \<^verbatim>\<open>called\<close> (its address in the store),
  \<^verbatim>\<open>promise\<close>, \<^verbatim>\<open>resolve\<close> and \<^verbatim>\<open>reject\<close>.
\<close>

type_synonym frame = "nat \<times> nat \<times> settler \<times> settler"

datatype task =
    Run_onFulfilled nat nat handler
  | Run_onRejected nat nat handler
  | Later_guarded "action list" nat nat settler settler "frame list"
  | Later_plain "action list" handler handler

text \<open>
  An entry of \<^verbatim>\<open>onFulfilledCbs\<close> or \<^verbatim>\<open>onRejectedCbs\<close>: the closures of lines 232 and 245,
  which hand their timer function to \<^verbatim>\<open>setTimeout\<close>.
\<close>

datatype cb = Schedule task

section \<open>State\<close>

record promise =
  status :: status
  pvalue :: val
  reason :: val
  onFulfilledCbs :: "cb list"
  onRejectedCbs :: "cb list"

text \<open>The variables of one call of \<^verbatim>\<open>all\<close> (lines 302 and 304), with the
  \<^verbatim>\<open>iterable\<close> (\<open>all_iterable\<close>) and the \<^verbatim>\<open>resolve\<close> (of the promise \<open>target\<close>) that
  \<^verbatim>\<open>processRes\<close> captures.\<close>

record allvars =
  fulfilledCount :: nat
  res :: "val list"
  all_iterable :: val
  target :: nat

text \<open>
  The store: the promise objects, the timer queue of \<^verbatim>\<open>setTimeout(f, 0)\<close> (first in,
  first out), the \<^verbatim>\<open>called\<close> flags of the resolution procedure, the variables of the calls
  of \<^verbatim>\<open>all\<close>, and the log of the calls of the caller's handlers (handler and argument).
\<close>

record state =
  heap :: "promise list"
  queue :: "task list"
  called :: "bool list"
  alls :: "allvars list"
  invoked :: "(nat \<times> val) list"

definition init_state :: state where
  "init_state = \<lparr>heap = [], queue = [], called = [], alls = [], invoked = []\<rparr>"

definition setTimeout :: "state \<Rightarrow> task \<Rightarrow> state" where
  "setTimeout st t = st\<lparr>queue := queue st @ [t]\<rparr>"

text \<open>Lines 9-13; every registered function is a \<open>Schedule\<close>, which ignores its argument.\<close>

fun invokeArrayFns :: "state \<Rightarrow> cb list \<Rightarrow> val \<Rightarrow> state" where
  "invokeArrayFns st [] arg = st"
| "invokeArrayFns st (Schedule t # fns) arg = invokeArrayFns (setTimeout st t) fns arg"

text \<open>Lines 120-128: the fields of a new object, put at the next free address.\<close>

definition new_promise :: "state \<Rightarrow> state \<times> nat" where
  "new_promise st =
     (st\<lparr>heap := heap st @
        [\<lparr>status = STATUS_PENDING, pvalue = VNull, reason = VNull,
          onFulfilledCbs = [], onRejectedCbs = []\<rparr>]\<rparr>,
      length (heap st))"

section \<open>\<^verbatim>\<open>then\<close>\<close>

text \<open>
  The executor of lines 190-258, run by the constructor on the new \<open>promise2\<close>.  It cannot
  throw.  The three tests of \<^verbatim>\<open>this.status\<close> are made one after the other.
\<close>

definition then_executor :: "state \<Rightarrow> nat \<Rightarrow> nat \<Rightarrow> handler \<Rightarrow> handler \<Rightarrow> state" where
  "then_executor st this promise2 onFulfilled onRejected =
     (let st1 = (if status (heap st ! this) = STATUS_FULFILLED
                 then setTimeout st (Run_onFulfilled this promise2 onFulfilled) else st);
          st2 = (if status (heap st1 ! this) = STATUS_REJECTED
                 then setTimeout st1 (Run_onRejected this promise2 onRejected) else st1)
      in if status (heap st2 ! this) = STATUS_PENDING
         then st2\<lparr>heap := (heap st2)[this := (heap st2 ! this)
                \<lparr>onFulfilledCbs := onFulfilledCbs (heap st2 ! this) @
                     [Schedule (Run_onFulfilled this promise2 onFulfilled)],
                 onRejectedCbs := onRejectedCbs (heap st2 ! this) @
                     [Schedule (Run_onRejected this promise2 onRejected)]\<rparr>]\<rparr>
         else st2)"

text \<open>
  Lines 178-268.  An argument that is not a function is \<open>None\<close> and is replaced by the
  default.  The result is the new state and \<open>promise2\<close>.
\<close>

definition then_method :: "state \<Rightarrow> nat \<Rightarrow> handler option \<Rightarrow> handler option \<Rightarrow> state \<times> nat" where
  "then_method st this onFulfilled onRejected =
     (let onF = (case onFulfilled of Some f \<Rightarrow> f | None \<Rightarrow> Default_onFulfilled);
          onR = (case onRejected of Some f \<Rightarrow> f | None \<Rightarrow> Default_onRejected);
          (st1, promise2) = new_promise st
      in (then_executor st1 this promise2 onF onR, promise2))"

section \<open>The settlement capabilities\<close>

text \<open>Lines 158-167.  The result of the call is \<^verbatim>\<open>undefined\<close>.\<close>

definition reject_cap :: "state \<Rightarrow> nat \<Rightarrow> val \<Rightarrow> state" where
  "reject_cap st this r =
     (if status (heap st ! this) = STATUS_PENDING
      then invokeArrayFns
             (st\<lparr>heap := (heap st)[this := (heap st ! this)\<lparr>status := STATUS_REJECTED, reason := r\<rparr>]\<rparr>)
             (onRejectedCbs (heap st ! this)) r
      else st)"

text \<open>
  Lines 135-153.  The call returns what \<^verbatim>\<open>value.then\<close> returns when the value is a
  promise of this class, and \<^verbatim>\<open>undefined\<close> otherwise.
\<close>

definition resolve_cap :: "state \<Rightarrow> nat \<Rightarrow> val \<Rightarrow> state \<times> val" where
  "resolve_cap st this v =
     (case shape_of v of
        Instance q \<Rightarrow>
          (let (st1, p2) = then_method st q (Some (Nested_value this)) (Some (Nested_reason this))
           in (st1, VPromise p2))
      | _ \<Rightarrow>
          (if status (heap st ! this) = STATUS_PENDING
           then (invokeArrayFns
                   (st\<lparr>heap := (heap st)[this := (heap st ! this)\<lparr>status := STATUS_FULFILLED, pvalue := v\<rparr>]\<rparr>)
                   (onFulfilledCbs (heap st ! this)) v, VUndef)
           else (st, VUndef)))"

fun call_settler :: "state \<Rightarrow> settler \<Rightarrow> val \<Rightarrow> state \<times> val" where
  "call_settler st (Resolve_of p) v = resolve_cap st p v"
| "call_settler st (Reject_of p) v = (reject_cap st p v, VUndef)"

section \<open>The promise resolution procedure\<close>

text \<open>Line 40: a new variable \<^verbatim>\<open>called\<close>, which the closures of lines 61 and 78 and the
  \<^verbatim>\<open>catch\<close> block share.\<close>

definition new_flag :: "state \<Rightarrow> state \<times> nat" where
  "new_flag st = (st\<lparr>called := called st @ [False]\<rparr>, length (called st))"

definition set_flag :: "state \<Rightarrow> nat \<Rightarrow> state" where
  "set_flag st c = st\<lparr>called := (called st)[c := True]\<rparr>"

definition cyclic_message :: string where
  "cyclic_message = ''`promise` and `x` refer to the same object, see: https://promisesaplus.com/#point-48''"

text \<open>
  The member \<^verbatim>\<open>x.then\<close> of a value that passes the test of line 42 (an object that is
  not \<^verbatim>\<open>null\<close>, or a function); \<open>None\<close> for a value that fails it.
\<close>

fun then_member :: "shape \<Rightarrow> thenp option" where
  "then_member (Object tp) = Some tp"
| "then_member (Function tp) = Some tp"
| "then_member (Instance q) = None"
| "then_member Primitive = None"

text \<open>Lines 78-87: the closure \<^verbatim>\<open>rejectPromise\<close>, called with \<open>r\<close>.\<close>

definition rejectPromise :: "state \<Rightarrow> nat \<Rightarrow> settler \<Rightarrow> val \<Rightarrow> state" where
  "rejectPromise st c reject r =
     (if called st ! c then st else fst (call_settler (set_flag st c) reject r))"

text \<open>Lines 93-109: the \<^verbatim>\<open>catch\<close> block, entered with the exception \<open>e\<close>.\<close>

definition catch_block :: "state \<Rightarrow> nat \<Rightarrow> settler \<Rightarrow> val \<Rightarrow> state" where
  "catch_block st c reject e =
     (if called st ! c then st else fst (call_settler (set_flag st c) reject e))"

lemma then_member_size:
  "shape_of x = Object tp \<Longrightarrow> size tp \<le> size x"
  "shape_of x = Function tp \<Longrightarrow> size tp \<le> size x"
  by (cases x; auto)+

text \<open>
  Lines 21-115.  \<open>promiseResolutionProcedure\<close> is the function; \<open>try_block\<close> is the
  \<^verbatim>\<open>try\<close> of lines 44-92 (its result \<open>Some e\<close> is the exception that reaches the
  \<^verbatim>\<open>catch\<close>); \<open>then_call_guarded\<close> is the foreign \<^verbatim>\<open>then\<close> running with the callbacks of
  lines 61-73 and 78-87; \<open>resolvePromise\<close> is the closure of lines 61-73, called with \<open>y\<close>:
  it sets \<^verbatim>\<open>called\<close> (line 70) before it runs the procedure on \<open>y\<close> (line 72).
  A deferred block goes to the timer queue with the same callbacks.

  The last argument \<open>env\<close> is not in the source: it lists the calls of a foreign \<^verbatim>\<open>then\<close>
  that are around the code that runs, the nearest first, so that \<open>CallOuterFirst n\<close> and
  \<open>CallOuterSecond n\<close> find the closures they call.  The procedure that a timer function
  of \<^verbatim>\<open>then\<close> starts has no such call around it.  A \<^verbatim>\<open>then\<close> that \<open>resolvePromise\<close> reaches
  belongs to a value written in the script that made the call, so it has the \<^verbatim>\<open>then\<close> of
  that script around it, whichever closure the script called.  A script that names a
  \<^verbatim>\<open>then\<close> which is not around it calls nothing.
  The recursion of line 72 is on a value that the script of \<open>x\<close> contains.
\<close>

function promiseResolutionProcedure ::
    "state \<Rightarrow> nat \<Rightarrow> val \<Rightarrow> settler \<Rightarrow> settler \<Rightarrow> frame list \<Rightarrow> state \<times> val"
  and try_block ::
    "state \<Rightarrow> val \<Rightarrow> thenp \<Rightarrow> nat \<Rightarrow> nat \<Rightarrow> settler \<Rightarrow> settler \<Rightarrow> frame list \<Rightarrow> state \<times> val option"
  and then_call_guarded ::
    "state \<Rightarrow> action list \<Rightarrow> nat \<Rightarrow> nat \<Rightarrow> settler \<Rightarrow> settler \<Rightarrow> frame list \<Rightarrow> state \<times> val option"
  and resolvePromise ::
    "state \<Rightarrow> nat \<Rightarrow> nat \<Rightarrow> settler \<Rightarrow> settler \<Rightarrow> frame list \<Rightarrow> val \<Rightarrow> state"
where
  "promiseResolutionProcedure st promise x resolve reject env =
     (if x = VPromise promise
      then call_settler st reject (VTypeError cyclic_message)
      else case shape_of x of
          Instance q \<Rightarrow>
            (let (st1, p2) = then_method st q (Some (Adopt_value promise resolve reject))
                                             (Some (Adopt_reason reject))
             in (st1, VPromise p2))
        | sh \<Rightarrow>
            (let (st1, c) = new_flag st
             in case then_member sh of
                  Some tp \<Rightarrow>
                    (case try_block st1 x tp c promise resolve reject env of
                       (st2, None) \<Rightarrow> (st2, VUndef)
                     | (st2, Some e) \<Rightarrow> (catch_block st2 c reject e, VUndef))
                | None \<Rightarrow> (fst (call_settler st1 resolve x), VUndef)))"
| "try_block st x ThenNone c promise resolve reject env =
     (fst (call_settler st resolve x), None)"
| "try_block st x (ThenGetterThrows e) c promise resolve reject env = (st, Some e)"
| "try_block st x (ThenFn acts) c promise resolve reject env =
     then_call_guarded st acts c promise resolve reject env"
| "then_call_guarded st [] c promise resolve reject env = (st, None)"
| "then_call_guarded st (CallFirst y # acts) c promise resolve reject env =
     then_call_guarded
       (resolvePromise st c promise resolve reject ((c, promise, resolve, reject) # env) y)
       acts c promise resolve reject env"
| "then_call_guarded st (CallSecond r # acts) c promise resolve reject env =
     then_call_guarded (rejectPromise st c reject r) acts c promise resolve reject env"
| "then_call_guarded st (Throw e # acts) c promise resolve reject env = (st, Some e)"
| "then_call_guarded st (Later block # acts) c promise resolve reject env =
     then_call_guarded (setTimeout st (Later_guarded block c promise resolve reject env))
       acts c promise resolve reject env"
| "then_call_guarded st (CallOuterFirst n y # acts) c promise resolve reject env =
     then_call_guarded
       (if n < length env
        then resolvePromise st (fst (env ! n)) (fst (snd (env ! n))) (fst (snd (snd (env ! n))))
               (snd (snd (snd (env ! n)))) ((c, promise, resolve, reject) # env) y
        else st)
       acts c promise resolve reject env"
| "then_call_guarded st (CallOuterSecond n r # acts) c promise resolve reject env =
     then_call_guarded
       (if n < length env
        then rejectPromise st (fst (env ! n)) (snd (snd (snd (env ! n)))) r
        else st)
       acts c promise resolve reject env"
| "resolvePromise st c promise resolve reject env y =
     (if called st ! c then st
      else fst (promiseResolutionProcedure (set_flag st c) promise y resolve reject env))"
  by pat_completeness auto
termination
  by (relation "measure (\<lambda>a. case a of
        Inl (Inl (st, promise, x, resolve, reject, env)) \<Rightarrow> 3 * size x + 2
      | Inl (Inr (st, x, tp, c, promise, resolve, reject, env)) \<Rightarrow> 3 * size tp + 1
      | Inr (Inl (st, acts, c, promise, resolve, reject, env)) \<Rightarrow> 3 * size_list size acts
      | Inr (Inr (st, c, promise, resolve, reject, env, y)) \<Rightarrow> 3 * size y + 3)")
    (auto dest: then_member_size)

declare promiseResolutionProcedure.simps [simp del]
declare resolvePromise.simps [simp del]

section \<open>Handlers and timers\<close>

text \<open>
  \<^verbatim>\<open>res[index] = value\<close> on a JavaScript array: a write past the end leaves empty slots
  between the old end and the index.
\<close>

definition array_set :: "val list \<Rightarrow> nat \<Rightarrow> val \<Rightarrow> val list" where
  "array_set xs i v =
     (if i < length xs then xs[i := v] else xs @ replicate (i - length xs) VEmpty @ [v])"

text \<open>
  The member \<^verbatim>\<open>length\<close> of an iterable value, read in the store \<open>st\<close>: the array \<^verbatim>\<open>res\<close> of
  a call of \<^verbatim>\<open>all\<close> grows while that call collects its values.  \<open>None\<close> stands for a
  value whose \<^verbatim>\<open>length\<close> is not modelled (no such value is iterable).
\<close>

fun array_length :: "state \<Rightarrow> val \<Rightarrow> nat option" where
  "array_length st (VArr xs) = Some (length xs)"
| "array_length st (VRes c) = Some (length (res (alls st ! c)))"
| "array_length st (VStr s) = Some (length s)"
| "array_length st v = None"

text \<open>Lines 309-315, for the call \<open>c\<close> of \<^verbatim>\<open>all\<close>.  \<^verbatim>\<open>iterable.length\<close> is read at
  each call, after the write to \<^verbatim>\<open>res\<close>.  \<^verbatim>\<open>resolve(res)\<close> hands out the array itself,
  not a copy.\<close>

definition processRes :: "state \<Rightarrow> nat \<Rightarrow> nat \<Rightarrow> val \<Rightarrow> state" where
  "processRes st c index v =
     (let a = alls st ! c;
          a1 = a\<lparr>res := array_set (res a) index v, fulfilledCount := fulfilledCount a + 1\<rparr>;
          st1 = st\<lparr>alls := (alls st)[c := a1]\<rparr>
      in if array_length st1 (all_iterable a1) = Some (fulfilledCount a1)
         then fst (resolve_cap st1 (target a1) (VRes c))
         else st1)"

text \<open>
  A call of a handler with one argument: the new state, and the value returned (\<open>Inr\<close>) or
  thrown (\<open>Inl\<close>).  An arrow function with an expression body returns the value of the
  expression; \<^verbatim>\<open>processRes\<close> returns \<^verbatim>\<open>undefined\<close>.
\<close>

fun apply_handler :: "state \<Rightarrow> handler \<Rightarrow> val \<Rightarrow> state \<times> (val + val)" where
  "apply_handler st Default_onFulfilled v = (st, Inr v)"
| "apply_handler st Default_onRejected v = (st, Inl v)"
| "apply_handler st (UserFn i f) v = (st\<lparr>invoked := invoked st @ [(i, v)]\<rparr>, f v)"
| "apply_handler st (Adopt_value promise resolve reject) v =
     (let (st1, r) = promiseResolutionProcedure st promise v resolve reject [] in (st1, Inr r))"
| "apply_handler st (Adopt_reason reject) v =
     (let (st1, r) = call_settler st reject v in (st1, Inr r))"
| "apply_handler st (Nested_value p) v =
     (let (st1, r) = resolve_cap st p v in (st1, Inr r))"
| "apply_handler st (Nested_reason p) v = (reject_cap st p v, Inr VUndef)"
| "apply_handler st (Static_value p) v =
     (let (st1, r) = resolve_cap st p v in (st1, Inr r))"
| "apply_handler st (Static_reason p) v = (reject_cap st p v, Inr VUndef)"
| "apply_handler st (All_value c i) v = (processRes st c i v, Inr VUndef)"
| "apply_handler st (All_reason p) v = (reject_cap st p v, Inr VUndef)"
| "apply_handler st (Race_value p) v =
     (let (st1, r) = resolve_cap st p v in (st1, Inr r))"
| "apply_handler st (Race_reason p) v = (reject_cap st p v, Inr VUndef)"
| "apply_handler st Settled_value v = (st, Inr (VOutcome STATUS_FULFILLED v))"
| "apply_handler st Settled_reason v = (st, Inr (VOutcome STATUS_REJECTED v))"

text \<open>
  A foreign \<^verbatim>\<open>then\<close> running with two handlers as its arguments, without any guard
  (lines 279, 324 and 349).  The result \<open>Some e\<close> is an exception that leaves the call;
  an exception of a callback is not caught by the script.  These calls are made by the
  static methods, with no other \<^verbatim>\<open>then\<close> around them, and their handlers never reach
  the \<^verbatim>\<open>then\<close> of a value of the script: \<open>CallOuterFirst\<close> and \<open>CallOuterSecond\<close> call nothing.
\<close>

fun then_call_plain :: "state \<Rightarrow> action list \<Rightarrow> handler \<Rightarrow> handler \<Rightarrow> state \<times> val option" where
  "then_call_plain st [] onF onR = (st, None)"
| "then_call_plain st (CallFirst y # acts) onF onR =
     (case apply_handler st onF y of
        (st1, Inl e) \<Rightarrow> (st1, Some e)
      | (st1, Inr r) \<Rightarrow> then_call_plain st1 acts onF onR)"
| "then_call_plain st (CallSecond y # acts) onF onR =
     (case apply_handler st onR y of
        (st1, Inl e) \<Rightarrow> (st1, Some e)
      | (st1, Inr r) \<Rightarrow> then_call_plain st1 acts onF onR)"
| "then_call_plain st (Throw e # acts) onF onR = (st, Some e)"
| "then_call_plain st (Later block # acts) onF onR =
     then_call_plain (setTimeout st (Later_plain block onF onR)) acts onF onR"
| "then_call_plain st (CallOuterFirst n y # acts) onF onR = then_call_plain st acts onF onR"
| "then_call_plain st (CallOuterSecond n r # acts) onF onR = then_call_plain st acts onF onR"

text \<open>
  The statement \<^verbatim>\<open>if (iterator && typeof iterator.then === 'function') iterator.then(f, g)\<close>
  of lines 323 and 348: \<open>None\<close> when the test is false, otherwise the state after the call
  and the exception that left the test or the call, if any.
\<close>

definition invoke_then :: "state \<Rightarrow> val \<Rightarrow> handler \<Rightarrow> handler \<Rightarrow> (state \<times> val option) option" where
  "invoke_then st x onF onR =
     (case shape_of x of
        Instance q \<Rightarrow> Some (fst (then_method st q (Some onF) (Some onR)), None)
      | sh \<Rightarrow>
          (case then_member sh of
             Some (ThenFn acts) \<Rightarrow> Some (then_call_plain st acts onF onR)
           | Some (ThenGetterThrows e) \<Rightarrow> Some (st, Some e)
           | _ \<Rightarrow> None))"

text \<open>
  The timer functions.  Lines 197-210 and 220-227 for the two of \<^verbatim>\<open>then\<close>; a deferred block
  of a foreign \<^verbatim>\<open>then\<close> runs outside every \<^verbatim>\<open>try\<close>, so its exception is lost.
\<close>

fun run_task :: "state \<Rightarrow> task \<Rightarrow> state" where
  "run_task st (Run_onFulfilled this promise2 onFulfilled) =
     (case apply_handler st onFulfilled (pvalue (heap st ! this)) of
        (st1, Inr x) \<Rightarrow>
          fst (promiseResolutionProcedure st1 promise2 x (Resolve_of promise2) (Reject_of promise2) [])
      | (st1, Inl e) \<Rightarrow> reject_cap st1 promise2 e)"
| "run_task st (Run_onRejected this promise2 onRejected) =
     (case apply_handler st onRejected (reason (heap st ! this)) of
        (st1, Inr x) \<Rightarrow>
          fst (promiseResolutionProcedure st1 promise2 x (Resolve_of promise2) (Reject_of promise2) [])
      | (st1, Inl e) \<Rightarrow> reject_cap st1 promise2 e)"
| "run_task st (Later_guarded block c promise resolve reject env) =
     fst (then_call_guarded st block c promise resolve reject env)"
| "run_task st (Later_plain block onF onR) = fst (then_call_plain st block onF onR)"

text \<open>The event loop: one turn takes the oldest timer function and runs it.\<close>

definition turn :: "state \<Rightarrow> state" where
  "turn st = (case queue st of [] \<Rightarrow> st | t # ts \<Rightarrow> run_task (st\<lparr>queue := ts\<rparr>) t)"

fun run :: "nat \<Rightarrow> state \<Rightarrow> state" where
  "run 0 st = st"
| "run (Suc n) st = run n (turn st)"

section \<open>The static methods\<close>

text \<open>
  Lines 270-289.  The result is the promise returned, or \<open>Inl e\<close> when the read of
  \<^verbatim>\<open>value.then\<close> in the test of line 277 throws \<open>e\<close> (no \<^verbatim>\<open>try\<close> is around it).
  In the executor of line 278 an exception of \<^verbatim>\<open>value.then\<close> reaches the \<^verbatim>\<open>catch\<close> of the
  constructor (line 173).
\<close>

definition promise_resolve :: "state \<Rightarrow> val \<Rightarrow> val + state \<times> nat" where
  "promise_resolve st v =
     (case shape_of v of
        Instance q \<Rightarrow> Inr (st, q)
      | Object (ThenFn acts) \<Rightarrow>
          (let (st1, p) = new_promise st
           in case then_call_plain st1 acts (Static_value p) (Static_reason p) of
                (st2, None) \<Rightarrow> Inr (st2, p)
              | (st2, Some e) \<Rightarrow> Inr (reject_cap st2 p e, p))
      | Object (ThenGetterThrows e) \<Rightarrow> Inl e
      | _ \<Rightarrow>
          (let (st1, p) = new_promise st in Inr (fst (resolve_cap st1 p v), p)))"

text \<open>Lines 291-293.\<close>

definition promise_reject :: "state \<Rightarrow> val \<Rightarrow> state \<times> nat" where
  "promise_reject st r = (let (st1, p) = new_promise st in (reject_cap st1 p r, p))"

text \<open>
  Line 17.  Arrays are iterable; a string is iterable unless it is empty (the empty string
  is falsy); nothing else that is modelled has a \<^verbatim>\<open>Symbol.iterator\<close> member.
\<close>

fun isIterable :: "val \<Rightarrow> bool" where
  "isIterable (VArr xs) = True"
| "isIterable (VRes c) = True"
| "isIterable (VStr s) = (s \<noteq> [])"
| "isIterable v = False"

text \<open>Reading a slot of an array: an empty slot reads as \<^verbatim>\<open>undefined\<close>.\<close>

definition read_slot :: "val \<Rightarrow> val" where
  "read_slot v = (if v = VEmpty then VUndef else v)"

text \<open>
  The elements \<^verbatim>\<open>iterable[0]\<close>, ..., \<^verbatim>\<open>iterable[iterable.length - 1]\<close> of an iterable
  value, read when the call starts: nothing that runs during the loops of lines 320, 345
  and 369 writes to the array that the loop reads.
\<close>

fun elements :: "state \<Rightarrow> val \<Rightarrow> val list" where
  "elements st (VArr xs) = map read_slot xs"
| "elements st (VRes c) = map read_slot (res (alls st ! c))"
| "elements st (VStr s) = map (\<lambda>ch. VStr [ch]) s"
| "elements st v = []"

fun typeof :: "val \<Rightarrow> string" where
  "typeof VUndef = ''undefined''"
| "typeof VEmpty = ''undefined''"
| "typeof (VBool b) = ''boolean''"
| "typeof (VNum n) = ''number''"
| "typeof (VStr s) = ''string''"
| "typeof (VFunc tp) = ''function''"
| "typeof v = ''object''"

text \<open>The object made by lines 297, 338 and 365.\<close>

definition not_iterable :: "val \<Rightarrow> val" where
  "not_iterable v = VTypeError (''TypeError: '' @ typeof v @
     '' is not iterable (cannot read property Symbol(Symbol.iterator))'')"

text \<open>Lines 320-331: the loop, from index \<open>i\<close> on.  \<open>Some e\<close> is an exception that ends it.\<close>

fun all_loop :: "state \<Rightarrow> nat \<Rightarrow> nat \<Rightarrow> nat \<Rightarrow> val list \<Rightarrow> state \<times> val option" where
  "all_loop st c p i [] = (st, None)"
| "all_loop st c p i (iterator # rest) =
     (case invoke_then st iterator (All_value c i) (All_reason p) of
        Some (st1, None) \<Rightarrow> all_loop st1 c p (i + 1) rest
      | Some (st1, Some e) \<Rightarrow> (st1, Some e)
      | None \<Rightarrow> all_loop (processRes st c i iterator) c p (i + 1) rest)"

text \<open>
  Lines 295-334.  The result is the state and the value returned: the \<^verbatim>\<open>TypeError\<close> object
  of line 297, or the new promise.
\<close>

definition promise_all :: "state \<Rightarrow> val \<Rightarrow> state \<times> val" where
  "promise_all st iterable =
     (if \<not> isIterable iterable then (st, not_iterable iterable)
      else
        (let xs = elements st iterable;
             (st1, p) = new_promise st;
             c = length (alls st1);
             st2 = st1\<lparr>alls := alls st1 @
                    [\<lparr>fulfilledCount = 0, res = [], all_iterable = iterable, target = p\<rparr>]\<rparr>
         in if length xs = 0 then (fst (resolve_cap st2 p (VRes c)), VPromise p)
            else (case all_loop st2 c p 0 xs of
                    (st3, None) \<Rightarrow> (st3, VPromise p)
                  | (st3, Some e) \<Rightarrow> (reject_cap st3 p e, VPromise p))))"

text \<open>Lines 336-361.  The loop returns in its first round.\<close>

definition promise_race :: "state \<Rightarrow> val \<Rightarrow> state \<times> val" where
  "promise_race st iterable =
     (if \<not> isIterable iterable then (st, not_iterable iterable)
      else
        (let (st1, p) = new_promise st
         in case elements st iterable of
              [] \<Rightarrow> (st1, VPromise p)
            | iterator # rest \<Rightarrow>
                (case invoke_then st1 iterator (Race_value p) (Race_reason p) of
                   Some (st2, None) \<Rightarrow> (st2, VPromise p)
                 | Some (st2, Some e) \<Rightarrow> (reject_cap st2 p e, VPromise p)
                 | None \<Rightarrow> (fst (resolve_cap st1 p iterator), VPromise p))))"

text \<open>Lines 368-376: the loop that fills \<^verbatim>\<open>promises\<close>.  An exception of
  \<^verbatim>\<open>PromiseImpl.resolve\<close> leaves \<^verbatim>\<open>allSettled\<close>.\<close>

fun settled_loop :: "state \<Rightarrow> val list \<Rightarrow> val list \<Rightarrow> val + state \<times> val list" where
  "settled_loop st [] promises = Inr (st, promises)"
| "settled_loop st (iterator # rest) promises =
     (case promise_resolve st iterator of
        Inl e \<Rightarrow> Inl e
      | Inr (st1, q) \<Rightarrow>
          (let (st2, p2) = then_method st1 q (Some Settled_value) (Some Settled_reason)
           in settled_loop st2 rest (promises @ [VPromise p2])))"

text \<open>Lines 363-379.\<close>

definition promise_allSettled :: "state \<Rightarrow> val \<Rightarrow> val + state \<times> val" where
  "promise_allSettled st iterable =
     (if \<not> isIterable iterable then Inr (st, not_iterable iterable)
      else case settled_loop st (elements st iterable) [] of
             Inl e \<Rightarrow> Inl e
           | Inr (st1, promises) \<Rightarrow> Inr (promise_all st1 (VArr promises)))"

text \<open>Reading the value of a fulfilled promise: an array of \<^verbatim>\<open>all\<close> is read through
  its reference.\<close>

fun contents :: "state \<Rightarrow> val \<Rightarrow> val" where
  "contents st (VRes c) = VArr (res (alls st ! c))"
| "contents st v = v"

section \<open>Notions used in the statements\<close>

text \<open>The timer function that an entry of a callback list hands to \<^verbatim>\<open>setTimeout\<close>.\<close>

fun timer_of :: "cb \<Rightarrow> task" where
  "timer_of (Schedule t) = t"

text \<open>What can be observed of the settlement of the promise \<open>p\<close>: its status, value and
  reason.\<close>

definition settlement :: "state \<Rightarrow> nat \<Rightarrow> status \<times> val \<times> val" where
  "settlement st p = (status (heap st ! p), pvalue (heap st ! p), reason (heap st ! p))"

text \<open>
  \<open>keeps st st'\<close>: every promise of \<open>st\<close> is a promise of \<open>st'\<close>, and every promise that is
  settled in \<open>st\<close> has the same status, value and reason in \<open>st'\<close>.
\<close>

definition keeps :: "state \<Rightarrow> state \<Rightarrow> bool" where
  "keeps st st' \<longleftrightarrow>
     length (heap st) \<le> length (heap st') \<and>
     (\<forall>p < length (heap st). status (heap st ! p) \<noteq> STATUS_PENDING \<longrightarrow>
         settlement st' p = settlement st p)"

text \<open>\<open>flags_kept st st'\<close>: every \<^verbatim>\<open>called\<close> flag of \<open>st\<close> that is set is still set in \<open>st'\<close>.\<close>

definition flags_kept :: "state \<Rightarrow> state \<Rightarrow> bool" where
  "flags_kept st st' \<longleftrightarrow>
     length (called st) \<le> length (called st') \<and>
     (\<forall>c < length (called st). called st ! c \<longrightarrow> called st' ! c)"

text \<open>
  A relation between an earlier and a later store is \<open>procedure_stable\<close> when it is
  reflexive and transitive and holds across each of the elementary changes of the store
  that the resolution procedure is made of; it is \<open>stable\<close> when it also holds across
  those that the handlers and the event loop add.
\<close>

definition procedure_stable :: "(state \<Rightarrow> state \<Rightarrow> bool) \<Rightarrow> bool" where
  "procedure_stable R \<longleftrightarrow>
     (\<forall>s. R s s) \<and>
     (\<forall>a b c. R a b \<longrightarrow> R b c \<longrightarrow> R a c) \<and>
     (\<forall>s t v. R s (fst (call_settler s t v))) \<and>
     (\<forall>s q f g. R s (fst (then_method s q f g))) \<and>
     (\<forall>s c. R s (set_flag s c)) \<and>
     (\<forall>s. R s (fst (new_flag s))) \<and>
     (\<forall>s t. R s (setTimeout s t))"

definition stable :: "(state \<Rightarrow> state \<Rightarrow> bool) \<Rightarrow> bool" where
  "stable R \<longleftrightarrow>
     procedure_stable R \<and>
     (\<forall>s q. R s (s\<lparr>queue := q\<rparr>)) \<and>
     (\<forall>s c r k. R s (s\<lparr>alls := (alls s)[c := (alls s ! c)\<lparr>res := r, fulfilledCount := k\<rparr>]\<rparr>)) \<and>
     (\<forall>s l. R s (s\<lparr>invoked := l\<rparr>))"

text \<open>
  The timer functions that a script hands to \<^verbatim>\<open>setTimeout\<close> when it runs with the callbacks
  of the resolution procedure: its deferred blocks, up to the first \<open>Throw\<close>.
\<close>

fun deferred :: "action list \<Rightarrow> nat \<Rightarrow> nat \<Rightarrow> settler \<Rightarrow> settler \<Rightarrow> frame list \<Rightarrow> task list" where
  "deferred [] c promise resolve reject env = []"
| "deferred (Throw e # acts) c promise resolve reject env = []"
| "deferred (Later block # acts) c promise resolve reject env =
     Later_guarded block c promise resolve reject env # deferred acts c promise resolve reject env"
| "deferred (a # acts) c promise resolve reject env = deferred acts c promise resolve reject env"

text \<open>The exception that leaves a script whose calls are all ignored.\<close>

fun thrown :: "action list \<Rightarrow> val option" where
  "thrown [] = None"
| "thrown (Throw e # acts) = Some e"
| "thrown (a # acts) = thrown acts"

text \<open>
  The first call that a script makes of one of its own two callbacks before it throws, if
  there is one, with the actions before it and the actions after it.
\<close>

fun first_call :: "action list \<Rightarrow> (action list \<times> action \<times> action list) option" where
  "first_call [] = None"
| "first_call (Throw e # acts) = None"
| "first_call (CallFirst y # acts) = Some ([], CallFirst y, acts)"
| "first_call (CallSecond r # acts) = Some ([], CallSecond r, acts)"
| "first_call (a # acts) =
     (case first_call acts of
        None \<Rightarrow> None
      | Some (before, b, after) \<Rightarrow> Some (a # before, b, after))"

text \<open>
  What a call of one of the two callbacks is meant to do when it is the first: a call of
  the first callback with \<open>y\<close> runs the resolution procedure on \<open>y\<close>, a call of the second
  with \<open>r\<close> rejects with \<open>r\<close>; in both cases with the flag \<^verbatim>\<open>called\<close> already set.
\<close>

fun call_effect ::
    "state \<Rightarrow> action \<Rightarrow> nat \<Rightarrow> nat \<Rightarrow> settler \<Rightarrow> settler \<Rightarrow> frame list \<Rightarrow> state" where
  "call_effect st (CallFirst y) c promise resolve reject env =
     fst (promiseResolutionProcedure (set_flag st c) promise y resolve reject
            ((c, promise, resolve, reject) # env))"
| "call_effect st (CallSecond r) c promise resolve reject env =
     fst (call_settler (set_flag st c) reject r)"
| "call_effect st a c promise resolve reject env = st"

text \<open>
  What a script is meant to do when it runs in the store \<open>st\<close> with the callbacks of the
  call \<open>c\<close> of a foreign \<^verbatim>\<open>then\<close>: if the flag \<^verbatim>\<open>called\<close> is set, nothing but to hand its
  deferred blocks to \<^verbatim>\<open>setTimeout\<close>; otherwise the same, but for the first call of one of
  the two callbacks, which has its effect.
\<close>

definition script_effect ::
    "state \<Rightarrow> action list \<Rightarrow> nat \<Rightarrow> nat \<Rightarrow> settler \<Rightarrow> settler \<Rightarrow> frame list \<Rightarrow> state" where
  "script_effect st acts c promise resolve reject env =
     (if called st ! c
      then st\<lparr>queue := queue st @ deferred acts c promise resolve reject env\<rparr>
      else case first_call acts of
          None \<Rightarrow> st\<lparr>queue := queue st @ deferred acts c promise resolve reject env\<rparr>
        | Some (before, a, after) \<Rightarrow>
            (let s0 = st\<lparr>queue := queue st @ deferred before c promise resolve reject env\<rparr>;
                 s1 = call_effect s0 a c promise resolve reject env
             in s1\<lparr>queue := queue s1 @ deferred after c promise resolve reject env\<rparr>))"

text \<open>
  \<open>enclosing_done st env\<close>: each call of a foreign \<^verbatim>\<open>then\<close> listed in \<open>env\<close> has its flag
  \<^verbatim>\<open>called\<close> in the store, and the flag is set.
\<close>

definition enclosing_done :: "state \<Rightarrow> frame list \<Rightarrow> bool" where
  "enclosing_done st env \<longleftrightarrow> list_all (\<lambda>fr. fst fr < length (called st) \<and> called st ! fst fr) env"

text \<open>Stores for the examples: one promise, fulfilled with 5, rejected with the
  string \<open>no\<close>, or pending.\<close>

definition fulfilled_example :: state where
  "fulfilled_example = fst (resolve_cap (fst (new_promise init_state)) 0 (VNum 5))"

definition rejected_example :: state where
  "rejected_example = reject_cap (fst (new_promise init_state)) 0 (VStr ''no'')"

definition pending_example :: state where
  "pending_example = fst (new_promise init_state)"

text \<open>A store with two pending promises.\<close>

definition two_pending :: state where
  "two_pending = fst (new_promise (fst (new_promise init_state)))"

text \<open>An object whose \<^verbatim>\<open>then\<close> calls its first argument twice, with 1 and with 2:
  \<^verbatim>\<open>{ then(res) { res(1); res(2) } }\<close>.\<close>

definition twice :: val where
  "twice = VObj (ThenFn [CallFirst (VNum 1), CallFirst (VNum 2)])"

text \<open>
  An object whose \<^verbatim>\<open>then\<close> calls nothing at once and sets two timers, the first to call
  its first argument with 1, the second to call its second argument:
  \<^verbatim>\<open>{ then(res, rej) { setTimeout(() => res(1)); setTimeout(() => rej('r')) } }\<close>.
\<close>

definition late_first :: val where
  "late_first = VObj (ThenFn [Later [CallFirst (VNum 1)], Later [CallSecond (VStr ''r'')]])"

text \<open>
  An object whose \<^verbatim>\<open>then\<close> calls its first argument with a thenable written in its body;
  the \<^verbatim>\<open>then\<close> of that one calls the second argument of the \<^verbatim>\<open>then\<close> around it, and then
  its own first argument with 1:
  \<^verbatim>\<open>{ then(res, rej) { res({ then(res2, rej2) { rej('late'); res2(1) } }) } }\<close>.
\<close>

definition reentrant :: val where
  "reentrant = VObj (ThenFn [CallFirst (VObj (ThenFn
     [CallOuterSecond 0 (VStr ''late''), CallFirst (VNum 1)]))])"

text \<open>
  An object whose \<^verbatim>\<open>then\<close> calls its first argument with the promise number 0 and then
  its second argument: \<^verbatim>\<open>{ then(res, rej) { res(q); rej('r') } }\<close>.
\<close>

definition resolve_then_reject :: val where
  "resolve_then_reject = VObj (ThenFn [CallFirst (VPromise 0), CallSecond (VStr ''r'')])"

text \<open>The promise that a settlement capability settles.\<close>

fun settler_of :: "settler \<Rightarrow> nat" where
  "settler_of (Resolve_of q) = q"
| "settler_of (Reject_of q) = q"

text \<open>\<open>allowed p s q\<close>: \<open>q\<close> is a promise of the store \<open>s\<close> other than \<open>p\<close>.\<close>

definition allowed :: "nat \<Rightarrow> state \<Rightarrow> nat \<Rightarrow> bool" where
  "allowed p s q \<longleftrightarrow> q \<noteq> p \<and> q < length (heap s)"

text \<open>
  \<open>handler_ok p s h\<close>: every settlement capability that the closure \<open>h\<close> has captured (for
  \<open>All_value\<close>, the \<^verbatim>\<open>resolve\<close> that \<^verbatim>\<open>processRes\<close> calls) is of an allowed promise; likewise
  \<open>env_ok\<close> for the calls of \<^verbatim>\<open>then\<close> around a script, and \<open>task_ok\<close> for a timer function,
  which also settles its \<open>promise2\<close>.
\<close>

fun handler_ok :: "nat \<Rightarrow> state \<Rightarrow> handler \<Rightarrow> bool" where
  "handler_ok p s (Adopt_value promise resolve reject) =
     (allowed p s (settler_of resolve) \<and> allowed p s (settler_of reject))"
| "handler_ok p s (Adopt_reason reject) = allowed p s (settler_of reject)"
| "handler_ok p s (Nested_value q) = allowed p s q"
| "handler_ok p s (Nested_reason q) = allowed p s q"
| "handler_ok p s (Static_value q) = allowed p s q"
| "handler_ok p s (Static_reason q) = allowed p s q"
| "handler_ok p s (All_value c i) = (c < length (alls s) \<and> allowed p s (target (alls s ! c)))"
| "handler_ok p s (All_reason q) = allowed p s q"
| "handler_ok p s (Race_value q) = allowed p s q"
| "handler_ok p s (Race_reason q) = allowed p s q"
| "handler_ok p s h = True"

definition env_ok :: "nat \<Rightarrow> state \<Rightarrow> frame list \<Rightarrow> bool" where
  "env_ok p s env \<longleftrightarrow>
     list_all (\<lambda>fr. allowed p s (settler_of (fst (snd (snd fr)))) \<and>
                    allowed p s (settler_of (snd (snd (snd fr))))) env"

fun task_ok :: "nat \<Rightarrow> state \<Rightarrow> task \<Rightarrow> bool" where
  "task_ok p s (Run_onFulfilled this d h) = (allowed p s d \<and> handler_ok p s h)"
| "task_ok p s (Run_onRejected this d h) = (allowed p s d \<and> handler_ok p s h)"
| "task_ok p s (Later_guarded block c promise resolve reject env) =
     (allowed p s (settler_of resolve) \<and> allowed p s (settler_of reject) \<and> env_ok p s env)"
| "task_ok p s (Later_plain block f g) = (handler_ok p s f \<and> handler_ok p s g)"

text \<open>All timer functions of a store: those that wait in the queue and those that the
  registered callbacks hold.\<close>

definition timers :: "state \<Rightarrow> task list" where
  "timers s = queue s @
     concat (map (\<lambda>pr. map timer_of (onFulfilledCbs pr @ onRejectedCbs pr)) (heap s))"

text \<open>\<open>state_ok p s\<close>: \<open>p\<close> is a promise of \<open>s\<close>, and no closure of \<open>s\<close> has a settlement
  capability of \<open>p\<close> or of a promise that does not exist.\<close>

definition state_ok :: "nat \<Rightarrow> state \<Rightarrow> bool" where
  "state_ok p s \<longleftrightarrow> p < length (heap s) \<and> (\<forall>t \<in> set (timers s). task_ok p s t)"

text \<open>\<open>ext s s'\<close>: the later store has the promises and the calls of \<^verbatim>\<open>all\<close> of the
  earlier one, with the same targets.\<close>

definition ext :: "state \<Rightarrow> state \<Rightarrow> bool" where
  "ext s s' \<longleftrightarrow>
     length (heap s) \<le> length (heap s') \<and> length (alls s) \<le> length (alls s') \<and>
     (\<forall>c < length (alls s). target (alls s' ! c) = target (alls s ! c))"

text \<open>\<open>pres p s s'\<close>: from \<open>s\<close> to \<open>s'\<close> the store is extended, and if no closure of \<open>s\<close> can
  settle \<open>p\<close>, none of \<open>s'\<close> can, and \<open>p\<close> is as it was.\<close>

definition pres :: "nat \<Rightarrow> state \<Rightarrow> state \<Rightarrow> bool" where
  "pres p s s' \<longleftrightarrow>
     ext s s' \<and> (state_ok p s \<longrightarrow> state_ok p s' \<and> settlement s' p = settlement s p)"

text \<open>A store is well formed when every settlement capability that one of its closures has
  captured is of one of its promises.\<close>

definition well_formed :: "state \<Rightarrow> bool" where
  "well_formed s \<longleftrightarrow> (\<forall>t \<in> set (timers s). task_ok (length (heap s)) s t)"

text \<open>A store with a timer function waiting: \<^verbatim>\<open>then\<close> was called on a fulfilled promise.\<close>

definition waiting_example :: state where
  "waiting_example = fst (then_method fulfilled_example 0 (Some (UserFn 1 Inr)) None)"

text \<open>The calls \<^verbatim>\<open>processRes(i, v)\<close> of the call \<open>c\<close> of \<^verbatim>\<open>all\<close>, for the pairs \<open>(i, v)\<close> of a
  list, in the order of the list.\<close>

fun report_all :: "state \<Rightarrow> nat \<Rightarrow> (nat \<times> val) list \<Rightarrow> state" where
  "report_all s c [] = s"
| "report_all s c ((i, v) # rs) = report_all (processRes s c i v) c rs"

text \<open>
  \<open>collecting c n p r0 s m\<close>: in the store \<open>s\<close>, the call \<open>c\<close> of \<^verbatim>\<open>all\<close> with an input
  of the fixed length \<open>n\<close> (an array of the caller, or a string) and
  the combined promise \<open>p\<close> has received the values \<open>m\<close>, one call of \<^verbatim>\<open>processRes\<close> for each
  slot of \<open>dom m\<close>; \<open>p\<close> is pending while slots are missing and fulfilled with \<^verbatim>\<open>res\<close>
  when none is.
\<close>

definition collecting :: "nat \<Rightarrow> nat \<Rightarrow> nat \<Rightarrow> val \<Rightarrow> state \<Rightarrow> (nat \<rightharpoonup> val) \<Rightarrow> bool" where
  "collecting c n p r0 s m \<longleftrightarrow>
     c < length (alls s) \<and> (\<forall>s'. array_length s' (all_iterable (alls s ! c)) = Some n) \<and>
     target (alls s ! c) = p \<and>
     fulfilledCount (alls s ! c) = card (dom m) \<and> finite (dom m) \<and> dom m \<subseteq> {..<n} \<and>
     length (res (alls s ! c)) \<le> n \<and>
     (\<forall>i v. m i = Some v \<longrightarrow> i < length (res (alls s ! c)) \<and> res (alls s ! c) ! i = v) \<and>
     p < length (heap s) \<and>
     (card (dom m) < n \<longrightarrow> settlement s p = (STATUS_PENDING, VNull, r0)) \<and>
     (card (dom m) = n \<longrightarrow> settlement s p = (STATUS_FULFILLED, VRes c, r0))"

section \<open>Basic facts\<close>

lemma setTimeout_simps:
  "heap (setTimeout st t) = heap st"
  "queue (setTimeout st t) = queue st @ [t]"
  "called (setTimeout st t) = called st"
  "alls (setTimeout st t) = alls st"
  "invoked (setTimeout st t) = invoked st"
  by (simp_all add: setTimeout_def)

lemma invokeArrayFns_eq:
  "invokeArrayFns st fns arg = st\<lparr>queue := queue st @ map timer_of fns\<rparr>"
proof (induction fns arbitrary: st)
  case Nil
  show ?case by simp
next
  case (Cons f fns)
  show ?case by (cases f) (simp add: Cons.IH setTimeout_def)
qed

lemma new_promise_simps:
  "heap (fst (new_promise st)) = heap st @ [\<lparr>status = STATUS_PENDING, pvalue = VNull, reason = VNull,
          onFulfilledCbs = [], onRejectedCbs = []\<rparr>]"
  "queue (fst (new_promise st)) = queue st"
  "called (fst (new_promise st)) = called st"
  "alls (fst (new_promise st)) = alls st"
  "invoked (fst (new_promise st)) = invoked st"
  "snd (new_promise st) = length (heap st)"
  by (simp_all add: new_promise_def)

lemma examples_eq:
  "fulfilled_example = \<lparr>heap = [\<lparr>status = STATUS_FULFILLED, pvalue = VNum 5, reason = VNull,
      onFulfilledCbs = [], onRejectedCbs = []\<rparr>], queue = [], called = [], alls = [],
      invoked = []\<rparr>"
  "rejected_example = \<lparr>heap = [\<lparr>status = STATUS_REJECTED, pvalue = VNull, reason = VStr ''no'',
      onFulfilledCbs = [], onRejectedCbs = []\<rparr>], queue = [], called = [], alls = [],
      invoked = []\<rparr>"
  "pending_example = \<lparr>heap = [\<lparr>status = STATUS_PENDING, pvalue = VNull, reason = VNull,
      onFulfilledCbs = [], onRejectedCbs = []\<rparr>], queue = [], called = [], alls = [],
      invoked = []\<rparr>"
  by (simp_all add: fulfilled_example_def rejected_example_def pending_example_def
      resolve_cap_def reject_cap_def new_promise_def init_state_def)

subsection \<open>\<^verbatim>\<open>then\<close>\<close>

lemma then_executor_settlement:
  "settlement (then_executor st this p2 f g) p = settlement st p"
  "length (heap (then_executor st this p2 f g)) = length (heap st)"
  "invoked (then_executor st this p2 f g) = invoked st"
  "called (then_executor st this p2 f g) = called st"
  "alls (then_executor st this p2 f g) = alls st"
  by (cases "this < length (heap st)"; cases "p = this";
      simp add: then_executor_def settlement_def Let_def setTimeout_def list_update_beyond)+

lemma then_method_settlement:
  "p < length (heap st) \<Longrightarrow> settlement (fst (then_method st this f g)) p = settlement st p"
  by (simp add: then_method_def new_promise_def then_executor_settlement split_beta)
   (simp add: settlement_def nth_append)

lemma then_method_simps:
  "length (heap (fst (then_method st this f g))) = Suc (length (heap st))"
  "snd (then_method st this f g) = length (heap st)"
  "invoked (fst (then_method st this f g)) = invoked st"
  "called (fst (then_method st this f g)) = called st"
  "alls (fst (then_method st this f g)) = alls st"
  by (simp_all add: then_method_def new_promise_def then_executor_settlement split_beta)

lemma then_method_queue:
  assumes "this < length (heap st)"
  shows "queue (fst (then_method st this f g)) =
    (if status (heap st ! this) = STATUS_FULFILLED
     then queue st @ [Run_onFulfilled this (length (heap st))
            (case f of Some h \<Rightarrow> h | None \<Rightarrow> Default_onFulfilled)]
     else if status (heap st ! this) = STATUS_REJECTED
     then queue st @ [Run_onRejected this (length (heap st))
            (case g of Some h \<Rightarrow> h | None \<Rightarrow> Default_onRejected)]
     else queue st)"
  using assms
  by (cases "status (heap st ! this)")
    (simp_all add: then_method_def then_executor_def new_promise_def setTimeout_def nth_append)

lemma then_method_pending:
  assumes "this < length (heap st)" and "status (heap st ! this) = STATUS_PENDING"
  shows "heap (fst (then_method st this f g)) =
    (heap st)[this := (heap st ! this)
       \<lparr>onFulfilledCbs := onFulfilledCbs (heap st ! this) @
          [Schedule (Run_onFulfilled this (length (heap st))
             (case f of Some h \<Rightarrow> h | None \<Rightarrow> Default_onFulfilled))],
        onRejectedCbs := onRejectedCbs (heap st ! this) @
          [Schedule (Run_onRejected this (length (heap st))
             (case g of Some h \<Rightarrow> h | None \<Rightarrow> Default_onRejected))]\<rparr>] @
    [\<lparr>status = STATUS_PENDING, pvalue = VNull, reason = VNull,
      onFulfilledCbs = [], onRejectedCbs = []\<rparr>]"
  using assms
  by (simp add: then_method_def then_executor_def new_promise_def setTimeout_def nth_append
      list_update_append)

lemma then_method_settled:
  assumes "this < length (heap st)" and "status (heap st ! this) \<noteq> STATUS_PENDING"
  shows "heap (fst (then_method st this f g)) = heap st @
    [\<lparr>status = STATUS_PENDING, pvalue = VNull, reason = VNull,
      onFulfilledCbs = [], onRejectedCbs = []\<rparr>]"
  using assms
  by (cases "status (heap st ! this)")
    (simp_all add: then_method_def then_executor_def new_promise_def setTimeout_def nth_append)

subsection \<open>The settlement capabilities\<close>

lemma reject_cap_settled:
  "status (heap st ! p) \<noteq> STATUS_PENDING \<Longrightarrow> reject_cap st p r = st"
  by (simp add: reject_cap_def)

lemma reject_cap_pending:
  "p < length (heap st) \<Longrightarrow> status (heap st ! p) = STATUS_PENDING \<Longrightarrow>
   settlement (reject_cap st p r) p = (STATUS_REJECTED, pvalue (heap st ! p), r)"
  by (simp add: reject_cap_def invokeArrayFns_eq settlement_def)

lemma reject_cap_others:
  "q \<noteq> p \<Longrightarrow> heap (reject_cap st p r) ! q = heap st ! q"
  "length (heap (reject_cap st p r)) = length (heap st)"
  by (simp_all add: reject_cap_def invokeArrayFns_eq)

lemma resolve_cap_Instance:
  "shape_of v = Instance q \<Longrightarrow>
   resolve_cap st p v =
     (fst (then_method st q (Some (Nested_value p)) (Some (Nested_reason p))),
      VPromise (length (heap st)))"
  by (simp add: resolve_cap_def split_beta then_method_simps)

lemma resolve_cap_plain:
  "(\<And>q. shape_of v \<noteq> Instance q) \<Longrightarrow>
   resolve_cap st p v =
     (if status (heap st ! p) = STATUS_PENDING
      then (invokeArrayFns
              (st\<lparr>heap := (heap st)[p := (heap st ! p)\<lparr>status := STATUS_FULFILLED, pvalue := v\<rparr>]\<rparr>)
              (onFulfilledCbs (heap st ! p)) v, VUndef)
      else (st, VUndef))"
  by (cases "shape_of v") (auto simp: resolve_cap_def)

lemma resolve_cap_pending:
  "p < length (heap st) \<Longrightarrow> status (heap st ! p) = STATUS_PENDING \<Longrightarrow>
   (\<And>q. shape_of v \<noteq> Instance q) \<Longrightarrow>
   settlement (fst (resolve_cap st p v)) p = (STATUS_FULFILLED, v, reason (heap st ! p))"
  by (simp add: resolve_cap_plain invokeArrayFns_eq settlement_def)

lemma invoked_resolve_cap: "invoked (fst (resolve_cap st p v)) = invoked st"
  by (cases "shape_of v")
    (simp_all add: resolve_cap_def split_beta then_method_simps invokeArrayFns_eq)

lemma invoked_reject_cap: "invoked (reject_cap st p r) = invoked st"
  by (simp add: reject_cap_def invokeArrayFns_eq)

lemma invoked_call_settler: "invoked (fst (call_settler st s v)) = invoked st"
  by (cases s) (simp_all add: invoked_resolve_cap invoked_reject_cap)

lemma called_resolve_cap: "called (fst (resolve_cap st p v)) = called st"
  by (cases "shape_of v")
    (simp_all add: resolve_cap_def split_beta then_method_simps invokeArrayFns_eq)

lemma called_reject_cap: "called (reject_cap st p r) = called st"
  by (simp add: reject_cap_def invokeArrayFns_eq)

lemma called_call_settler: "called (fst (call_settler st s v)) = called st"
  by (cases s) (simp_all add: called_resolve_cap called_reject_cap)

subsection \<open>Calling \<^verbatim>\<open>then\<close> on an element\<close>

lemma invoke_then_cases:
  "shape_of x = Primitive \<Longrightarrow> invoke_then st x f g = None"
  "then_member (shape_of x) = Some ThenNone \<Longrightarrow> invoke_then st x f g = None"
  "then_member (shape_of x) = Some (ThenGetterThrows e) \<Longrightarrow>
     invoke_then st x f g = Some (st, Some e)"
  "then_member (shape_of x) = Some (ThenFn acts) \<Longrightarrow>
     invoke_then st x f g = Some (then_call_plain st acts f g)"
  "shape_of x = Instance q \<Longrightarrow>
     invoke_then st x f g = Some (fst (then_method st q (Some f) (Some g)), None)"
  by (cases "shape_of x"; simp add: invoke_then_def)+

subsection \<open>The resolution procedure, case by case\<close>

lemma procedure_cyclic:
  "promiseResolutionProcedure st p (VPromise p) resolve reject env =
     call_settler st reject (VTypeError cyclic_message)"
  by (simp add: promiseResolutionProcedure.simps)

lemma procedure_Instance:
  "x \<noteq> VPromise p \<Longrightarrow> shape_of x = Instance q \<Longrightarrow>
   promiseResolutionProcedure st p x resolve reject env =
     (fst (then_method st q (Some (Adopt_value p resolve reject)) (Some (Adopt_reason reject))),
      VPromise (length (heap st)))"
  by (simp add: promiseResolutionProcedure.simps split_beta then_method_simps)

lemma procedure_Primitive:
  "shape_of x = Primitive \<Longrightarrow>
   promiseResolutionProcedure st p x resolve reject env =
     (fst (call_settler (fst (new_flag st)) resolve x), VUndef)"
  by (auto simp: promiseResolutionProcedure.simps split_beta)

lemma procedure_object:
  "then_member (shape_of x) = Some tp \<Longrightarrow>
   promiseResolutionProcedure st p x resolve reject env =
     (case try_block (fst (new_flag st)) x tp (length (called st)) p resolve reject env of
        (st2, None) \<Rightarrow> (st2, VUndef)
      | (st2, Some e) \<Rightarrow> (catch_block st2 (length (called st)) reject e, VUndef))"
  by (cases "shape_of x")
    (auto simp: promiseResolutionProcedure.simps split_beta new_flag_def split: option.splits)

subsection \<open>Relations that hold across every step\<close>

lemma stable_catch_block:
  assumes "procedure_stable R"
  shows "R st (catch_block st c reject e)"
proof (cases "called st ! c")
  case True
  with assms show ?thesis by (simp add: catch_block_def procedure_stable_def)
next
  case False
  from assms have "R st (set_flag st c)"
    and "R (set_flag st c) (fst (call_settler (set_flag st c) reject e))"
    and "\<And>a b c. R a b \<Longrightarrow> R b c \<Longrightarrow> R a c"
    unfolding procedure_stable_def by blast+
  with False show ?thesis by (auto simp: catch_block_def)
qed

lemma stable_rejectPromise:
  assumes "procedure_stable R"
  shows "R st (rejectPromise st c reject r)"
  using stable_catch_block[OF assms, of st c reject r]
  by (simp add: rejectPromise_def catch_block_def)

lemma stable_procedure:
  assumes st: "procedure_stable R"
  shows "R st (fst (promiseResolutionProcedure st promise x resolve reject env))"
    and "R st (fst (try_block st x tp c promise resolve reject env))"
    and "R st (fst (then_call_guarded st acts c promise resolve reject env))"
    and "R st (resolvePromise st c promise resolve reject env y)"
proof -
  from st have R_refl: "\<And>s. R s s"
    and R_trans: "\<And>a b c. R a b \<Longrightarrow> R b c \<Longrightarrow> R a c"
    and R_settle: "\<And>s t v. R s (fst (call_settler s t v))"
    and R_then: "\<And>s q f g. R s (fst (then_method s q f g))"
    and R_set: "\<And>s c. R s (set_flag s c)"
    and R_new: "\<And>s. R s (fst (new_flag s))"
    and R_timer: "\<And>s t. R s (setTimeout s t)"
    unfolding procedure_stable_def by blast+
  note catch = stable_catch_block[OF st]
  note rejp = stable_rejectPromise[OF st]
  show "R st (fst (promiseResolutionProcedure st promise x resolve reject env))"
    and "R st (fst (try_block st x tp c promise resolve reject env))"
    and "R st (fst (then_call_guarded st acts c promise resolve reject env))"
    and "R st (resolvePromise st c promise resolve reject env y)"
  proof (induction st promise x resolve reject env and st x tp c promise resolve reject env
      and st acts c promise resolve reject env and st c promise resolve reject env y
      rule: promiseResolutionProcedure_try_block_then_call_guarded_resolvePromise.induct)
    case (1 st promise x resolve reject env)
    show ?case
    proof (cases "x = VPromise promise")
      case True
      then show ?thesis by (simp add: R_settle procedure_cyclic)
    next
      case False
      have ih: "R (fst (new_flag st))
            (fst (try_block (fst (new_flag st)) x tp (snd (new_flag st)) promise resolve reject env))"
        if "then_member (shape_of x) = Some tp" for tp
      proof (cases "shape_of x")
        case (Object t)
        with that have "tp = t" by simp
        with "1.IH"(2)[OF False Object refl prod.collapse] show ?thesis by simp
      next
        case (Function t)
        with that have "tp = t" by simp
        with "1.IH"(3)[OF False Function refl prod.collapse] show ?thesis by simp
      qed (use that in simp_all)
      show ?thesis
      proof (cases "then_member (shape_of x)")
        case None
        then show ?thesis using False
          by (cases "shape_of x")
            (auto simp: procedure_Instance procedure_Primitive R_then
              intro: R_trans[OF R_new R_settle])
      next
        case (Some tp)
        have snd_new: "snd (new_flag st) = length (called st)"
          by (simp add: new_flag_def)
        show ?thesis using ih[OF Some]
          by (auto simp: procedure_object[OF Some] snd_new split_beta split: option.splits
              intro: R_trans[OF R_new] R_trans[OF R_trans[OF R_new] catch])
      qed
    qed
  next
    case (2 st x c promise resolve reject env)
    show ?case by (simp add: R_settle)
  next
    case (3 st x e c promise resolve reject env)
    show ?case by (simp add: R_refl)
  next
    case (4 st x acts c promise resolve reject env)
    then show ?case by simp
  next
    case (5 st c promise resolve reject env)
    show ?case by (simp add: R_refl)
  next
    case (6 st y acts c promise resolve reject env)
    from R_trans[OF "6.IH"(1) "6.IH"(2)] show ?case by simp
  next
    case (7 st r acts c promise resolve reject env)
    from R_trans[OF rejp "7.IH"] show ?case by simp
  next
    case (8 st e acts c promise resolve reject env)
    show ?case by (simp add: R_refl)
  next
    case (9 st block acts c promise resolve reject env)
    then show ?case by (auto intro: R_trans[OF R_timer])
  next
    case (10 st n y acts c promise resolve reject env)
    show ?case
    proof (cases "n < length env")
      case True
      with "10.IH"(2) have "R (resolvePromise st (fst (env ! n)) (fst (snd (env ! n)))
            (fst (snd (snd (env ! n)))) (snd (snd (snd (env ! n))))
            ((c, promise, resolve, reject) # env) y)
          (fst (then_call_guarded st (CallOuterFirst n y # acts) c promise resolve reject env))"
        by simp
      from R_trans[OF "10.IH"(1)[OF True] this] show ?thesis .
    next
      case False
      with "10.IH"(2) show ?thesis by simp
    qed
  next
    case (11 st n r acts c promise resolve reject env)
    show ?case
    proof (cases "n < length env")
      case True
      with "11.IH" have "R (rejectPromise st (fst (env ! n)) (snd (snd (snd (env ! n)))) r)
          (fst (then_call_guarded st (CallOuterSecond n r # acts) c promise resolve reject env))"
        by simp
      from R_trans[OF rejp this] show ?thesis .
    next
      case False
      with "11.IH" show ?thesis by simp
    qed
  next
    case (12 st c promise resolve reject env y)
    show ?case
    proof (cases "called st ! c")
      case True
      then show ?thesis by (simp add: resolvePromise.simps R_refl)
    next
      case False
      from R_trans[OF R_set "12.IH"[OF False]] False show ?thesis
        by (simp add: resolvePromise.simps)
    qed
  qed
qed

lemma stableD:
  assumes "stable R"
  shows "procedure_stable R"
    and "\<And>s. R s s"
    and "\<And>a b c. R a b \<Longrightarrow> R b c \<Longrightarrow> R a c"
    and "\<And>s t v. R s (fst (call_settler s t v))"
    and "\<And>s q. R s (s\<lparr>queue := q\<rparr>)"
    and "\<And>s c r k. R s (s\<lparr>alls := (alls s)[c := (alls s ! c)\<lparr>res := r, fulfilledCount := k\<rparr>]\<rparr>)"
    and "\<And>s l. R s (s\<lparr>invoked := l\<rparr>)"
proof -
  from assms have ps: "procedure_stable R"
    and q: "\<forall>s q. R s (s\<lparr>queue := q\<rparr>)"
    and a: "\<forall>s c r k. R s (s\<lparr>alls := (alls s)[c := (alls s ! c)\<lparr>res := r, fulfilledCount := k\<rparr>]\<rparr>)"
    and l: "\<forall>s l. R s (s\<lparr>invoked := l\<rparr>)"
    by (simp_all add: stable_def)
  from ps have r: "\<forall>s. R s s"
    and t: "\<forall>a b c. R a b \<longrightarrow> R b c \<longrightarrow> R a c"
    and c: "\<forall>s t v. R s (fst (call_settler s t v))"
    by (simp_all add: procedure_stable_def)
  show "procedure_stable R" by (rule ps)
  show "\<And>s. R s s" using r by simp
  show "\<And>a b c. R a b \<Longrightarrow> R b c \<Longrightarrow> R a c" using t by blast
  show "\<And>s t v. R s (fst (call_settler s t v))" using c by simp
  show "\<And>s q. R s (s\<lparr>queue := q\<rparr>)" using q by simp
  show "\<And>s c r k. R s (s\<lparr>alls := (alls s)[c := (alls s ! c)\<lparr>res := r, fulfilledCount := k\<rparr>]\<rparr>)"
    using a by simp
  show "\<And>s l. R s (s\<lparr>invoked := l\<rparr>)" using l by simp
qed

lemma stable_processRes:
  assumes "stable R"
  shows "R st (processRes st c i v)"
proof -
  note R_refl = stableD(2)[OF assms] and R_trans = stableD(3)[OF assms]
    and R_settle = stableD(4)[OF assms] and R_alls = stableD(6)[OF assms]
  have "R s (fst (resolve_cap s p w))" for s p w
    using R_settle[of s "Resolve_of p" w] by simp
  then show ?thesis
    unfolding processRes_def Let_def
    by (auto intro: R_alls R_trans[OF R_alls])
qed

lemma stable_apply_handler:
  assumes "stable R"
  shows "R st (fst (apply_handler st h v))"
proof -
  note R_refl = stableD(2)[OF assms] and R_settle = stableD(4)[OF assms]
    and R_invoked = stableD(7)[OF assms]
  have res: "R s (fst (resolve_cap s p w))" for s p w
    using R_settle[of s "Resolve_of p" w] by simp
  have rej: "R s (reject_cap s p w)" for s p w
    using R_settle[of s "Reject_of p" w] by simp
  show ?thesis
    by (cases h)
      (simp_all add: split_beta R_refl stable_procedure[OF stableD(1)[OF assms]] R_settle res rej
        stable_processRes[OF assms] R_invoked)
qed

lemma stable_then_call_plain:
  assumes st: "stable R"
  shows "R st (fst (then_call_plain st acts f g))"
proof -
  note R_refl = stableD(2)[OF st] and R_trans = stableD(3)[OF st]
    and R_queue = stableD(5)[OF st]
  note app = stable_apply_handler[OF st]
  show ?thesis
  proof (induction st acts f g rule: then_call_plain.induct)
    case (1 st onF onR)
    show ?case by (simp add: R_refl)
  next
    case (2 st y acts onF onR)
    show ?case
    proof (cases "snd (apply_handler st onF y)")
      case (Inl e)
      then show ?thesis using app[of st onF y]
        by (simp add: split_beta)
    next
      case (Inr r)
      then show ?thesis
        using app[of st onF y] "2.IH"[OF prod.collapse Inr]
        by (auto simp: split_beta intro: R_trans)
    qed
  next
    case (3 st y acts onF onR)
    show ?case
    proof (cases "snd (apply_handler st onR y)")
      case (Inl e)
      then show ?thesis using app[of st onR y]
        by (simp add: split_beta)
    next
      case (Inr r)
      then show ?thesis
        using app[of st onR y] "3.IH"[OF prod.collapse Inr]
        by (auto simp: split_beta intro: R_trans)
    qed
  next
    case (4 st e acts onF onR)
    show ?case by (simp add: R_refl)
  next
    case (5 st block acts onF onR)
    then show ?case by (auto simp: setTimeout_def intro: R_trans[OF R_queue])
  next
    case (6 st n y acts onF onR)
    then show ?case by simp
  next
    case (7 st n r acts onF onR)
    then show ?case by simp
  qed
qed

lemma stable_run_task:
  assumes st: "stable R"
  shows "R st (run_task st t)"
proof -
  note R_trans = stableD(3)[OF st] and R_settle = stableD(4)[OF st]
  have rej: "R s (reject_cap s p w)" for s p w
    using R_settle[of s "Reject_of p" w] by simp
  note app = stable_apply_handler[OF st]
  note prp = stable_procedure[OF stableD(1)[OF st]]
  show ?thesis
  proof (cases t)
    case (Run_onFulfilled this p2 h)
    then show ?thesis
      using app[of st h "pvalue (heap st ! this)"]
      by (auto simp: split_beta split: sum.splits
          intro: R_trans[OF _ prp(1)] R_trans[OF _ rej])
  next
    case (Run_onRejected this p2 h)
    then show ?thesis
      using app[of st h "reason (heap st ! this)"]
      by (auto simp: split_beta split: sum.splits
          intro: R_trans[OF _ prp(1)] R_trans[OF _ rej])
  next
    case (Later_guarded block c p res rej env)
    then show ?thesis by (simp add: prp)
  next
    case (Later_plain block f g)
    then show ?thesis by (simp add: stable_then_call_plain[OF st])
  qed
qed

lemma stable_turn:
  assumes st: "stable R"
  shows "R st (turn st)"
proof (cases "queue st")
  case Nil
  with stableD(2)[OF st] show ?thesis by (simp add: turn_def)
next
  case (Cons t ts)
  show ?thesis
    using Cons stableD(3)[OF st, OF stableD(5)[OF st, of st ts]
        stable_run_task[OF st, of "st\<lparr>queue := ts\<rparr>" t]]
    by (simp add: turn_def)
qed

lemma stable_run:
  assumes st: "stable R"
  shows "R st (run n st)"
proof (induction n arbitrary: st)
  case 0
  from stableD(2)[OF st] show ?case by simp
next
  case (Suc n)
  show ?case
    using stableD(3)[OF st, OF stable_turn[OF st, of st] Suc.IH[of "turn st"]] by simp
qed

subsection \<open>Settled promises are kept\<close>

lemma keeps_refl: "keeps st st"
  by (simp add: keeps_def)

lemma keeps_trans: "keeps a b \<Longrightarrow> keeps b c \<Longrightarrow> keeps a c"
  by (auto simp: keeps_def settlement_def)

lemma keeps_heap_eq: "heap st' = heap st \<Longrightarrow> keeps st st'"
  by (simp add: keeps_def settlement_def)

lemma keeps_then_method: "keeps st (fst (then_method st this f g))"
  by (simp add: keeps_def then_method_settlement then_method_simps)

lemma keeps_reject_cap: "keeps st (reject_cap st p r)"
  by (cases "p < length (heap st)")
    (auto simp: keeps_def reject_cap_def invokeArrayFns_eq settlement_def nth_list_update)

lemma keeps_resolve_cap: "keeps st (fst (resolve_cap st p v))"
proof (cases "\<exists>q. shape_of v = Instance q")
  case True
  then show ?thesis by (auto simp: resolve_cap_Instance keeps_then_method)
next
  case False
  then have "\<And>q. shape_of v \<noteq> Instance q" by simp
  then show ?thesis
    by (cases "p < length (heap st)")
      (auto simp: resolve_cap_plain keeps_def invokeArrayFns_eq settlement_def nth_list_update)
qed

lemma keeps_call_settler: "keeps st (fst (call_settler st s v))"
  by (cases s) (simp_all add: keeps_resolve_cap keeps_reject_cap)

lemma stable_keeps: "stable keeps"
  unfolding stable_def procedure_stable_def
  by (intro conjI allI impI keeps_refl keeps_call_settler keeps_then_method)
    (auto intro: keeps_trans simp: keeps_heap_eq set_flag_def new_flag_def setTimeout_def)

lemma keepsD:
  "keeps st st' \<Longrightarrow> p < length (heap st) \<Longrightarrow> status (heap st ! p) \<noteq> STATUS_PENDING \<Longrightarrow>
   settlement st' p = settlement st p"
  by (simp add: keeps_def)

subsection \<open>Flags that are set stay set\<close>

lemma flags_kept_called_eq: "called st' = called st \<Longrightarrow> flags_kept st st'"
  by (simp add: flags_kept_def)

lemma stable_flags_kept: "stable flags_kept"
  unfolding stable_def procedure_stable_def
proof (intro conjI allI impI)
  fix a b c
  assume "flags_kept a b" and "flags_kept b c"
  then show "flags_kept a c" by (auto simp: flags_kept_def)
next
  fix s :: state and c
  have "(called s)[c := True] ! k" if "k < length (called s)" "called s ! k" for k
    using that by (cases "k = c") simp_all
  then show "flags_kept s (set_flag s c)"
    by (simp add: flags_kept_def set_flag_def)
next
  fix s
  show "flags_kept s (fst (new_flag s))"
    by (auto simp: flags_kept_def new_flag_def nth_append)
qed (simp_all add: flags_kept_called_eq called_call_settler then_method_simps setTimeout_def)

lemma flags_keptD:
  "flags_kept st st' \<Longrightarrow> c < length (called st) \<Longrightarrow> called st ! c \<Longrightarrow>
   c < length (called st') \<and> called st' ! c"
  by (auto simp: flags_kept_def)

section \<open>Single settlement\<close>

text \<open>
  C1.  Once the status of a promise is no longer pending, a call of either settlement
  capability (\<^verbatim>\<open>_resolve\<close>, \<^verbatim>\<open>_reject\<close>) with any argument leaves its status, value and
  reason as they are, and so does every later turn of the event loop (in which a nested
  promise given to \<^verbatim>\<open>_resolve\<close> may settle and call the capabilities again).  The store
  is arbitrary, so this covers a second call, a call of the other capability, and any
  number of further calls.
\<close>

theorem single_settlement:
  assumes "p < length (heap st)" and "status (heap st ! p) \<noteq> STATUS_PENDING"
  shows "settlement (fst (resolve_cap st p v)) p = settlement st p \<and>
         settlement (reject_cap st p v) p = settlement st p \<and>
         settlement (run n (fst (resolve_cap st p v))) p = settlement st p \<and>
         settlement (run n (reject_cap st p v)) p = settlement st p"
  using assms
    keepsD[OF keeps_resolve_cap[of st p v], of p]
    keepsD[OF keeps_reject_cap[of st p v], of p]
    keepsD[OF keeps_trans[OF keeps_resolve_cap[of st p v] stable_run[OF stable_keeps, of _ n]], of p]
    keepsD[OF keeps_trans[OF keeps_reject_cap[of st p v] stable_run[OF stable_keeps, of _ n]], of p]
  by simp

theorem single_settlement_witness:
  "0 < length (heap fulfilled_example) \<and> status (heap fulfilled_example ! 0) \<noteq> STATUS_PENDING \<and>
   settlement (fst (resolve_cap fulfilled_example 0 (VNum 7))) 0 = (STATUS_FULFILLED, VNum 5, VNull) \<and>
   settlement (reject_cap fulfilled_example 0 (VNum 7)) 0 = (STATUS_FULFILLED, VNum 5, VNull) \<and>
   settlement (run 3 (fst (resolve_cap fulfilled_example 0 (VNum 7)))) 0 = (STATUS_FULFILLED, VNum 5, VNull) \<and>
   settlement (run 3 (reject_cap fulfilled_example 0 (VNum 7))) 0 = (STATUS_FULFILLED, VNum 5, VNull)"
  using single_settlement[of 0 fulfilled_example "VNum 7" 3]
  by (simp add: examples_eq settlement_def)

section \<open>Self-reference\<close>

text \<open>
  C3.  When the candidate is the target promise itself, the resolution procedure does
  nothing but call \<^verbatim>\<open>reject\<close> with a \<^verbatim>\<open>TypeError\<close>, wherever it is called from.  With the target's own \<^verbatim>\<open>reject\<close> and
  a pending target, the target becomes rejected with that \<^verbatim>\<open>TypeError\<close> as its reason, its
  value is untouched, and no other promise changes.
\<close>

theorem self_reference_rejected:
  "promiseResolutionProcedure st p (VPromise p) resolve reject env =
     call_settler st reject (VTypeError cyclic_message) \<and>
   (p < length (heap st) \<and> status (heap st ! p) = STATUS_PENDING \<longrightarrow>
      settlement (fst (promiseResolutionProcedure st p (VPromise p) resolve (Reject_of p) env)) p =
        (STATUS_REJECTED, pvalue (heap st ! p), VTypeError cyclic_message) \<and>
      (\<forall>q. q \<noteq> p \<longrightarrow>
         heap (fst (promiseResolutionProcedure st p (VPromise p) resolve (Reject_of p) env)) ! q =
         heap st ! q))"
  by (simp add: procedure_cyclic reject_cap_pending reject_cap_others)

theorem self_reference_rejected_witness:
  "0 < length (heap (pending_example)) \<and>
   status (heap (pending_example) ! 0) = STATUS_PENDING \<and>
   settlement (fst (promiseResolutionProcedure (pending_example) 0 (VPromise 0)
       (Resolve_of 0) (Reject_of 0) [])) 0 =
     (STATUS_REJECTED, VNull, VTypeError cyclic_message)"
  using self_reference_rejected[of "pending_example" 0 "Resolve_of 0" "Reject_of 0" "[]",
      THEN conjunct2]
  by (simp add: examples_eq)

section \<open>Who can settle a promise\<close>

lemma ext_refl: "ext s s"
  by (simp add: ext_def)

lemma ext_trans: "ext a b \<Longrightarrow> ext b c \<Longrightarrow> ext a c"
  by (auto simp: ext_def)

lemma ext_same: "length (heap s') = length (heap s) \<Longrightarrow> alls s' = alls s \<Longrightarrow> ext s s'"
  by (simp add: ext_def)

lemma allowed_ext: "ext s s' \<Longrightarrow> allowed p s q \<Longrightarrow> allowed p s' q"
  by (auto simp: ext_def allowed_def)

lemma handler_ok_ext: "ext s s' \<Longrightarrow> handler_ok p s h \<Longrightarrow> handler_ok p s' h"
  by (cases h) (auto simp: allowed_ext, auto simp: ext_def allowed_def)

lemma task_ok_ext: "ext s s' \<Longrightarrow> task_ok p s t \<Longrightarrow> task_ok p s' t"
  by (cases t)
    (auto simp: allowed_ext handler_ok_ext env_ok_def list_all_iff intro: allowed_ext)

lemma pres_refl: "pres p s s"
  by (simp add: pres_def ext_refl)

lemma pres_trans: "pres p a b \<Longrightarrow> pres p b c \<Longrightarrow> pres p a c"
  by (auto simp: pres_def intro: ext_trans)

lemma presI:
  assumes "ext s s'"
    and "state_ok p s \<Longrightarrow> settlement s' p = settlement s p"
    and "state_ok p s \<Longrightarrow> set (timers s') \<subseteq> set (timers s) \<union> N"
    and "state_ok p s \<Longrightarrow> \<forall>t \<in> N. task_ok p s' t"
  shows "pres p s s'"
proof -
  have "state_ok p s'" if ok: "state_ok p s"
  proof -
    from ok have p: "p < length (heap s)" and old: "\<forall>t \<in> set (timers s). task_ok p s t"
      by (simp_all add: state_ok_def)
    have "task_ok p s' t" if "t \<in> set (timers s')" for t
    proof -
      from that assms(3)[OF ok] have "t \<in> set (timers s) \<or> t \<in> N" by auto
      then show ?thesis
        using old assms(4)[OF ok] task_ok_ext[OF assms(1)] by auto
    qed
    moreover have "p < length (heap s')"
      using p assms(1) by (simp add: ext_def)
    ultimately show ?thesis by (simp add: state_ok_def)
  qed
  then show ?thesis using assms(1,2) by (simp add: pres_def)
qed

lemma pres_setTimeout: "task_ok p s t \<Longrightarrow> pres p s (setTimeout s t)"
  by (rule presI[where N = "{t}"])
    (auto simp: setTimeout_def ext_same settlement_def timers_def intro: task_ok_ext[OF ext_same])

lemma pres_flags:
  "pres p s (set_flag s c)" "pres p s (fst (new_flag s))"
  by (rule presI[where N = "{}"]; simp add: set_flag_def new_flag_def ext_same settlement_def timers_def)+

lemma pres_queue_tl: "queue s = t # ts \<Longrightarrow> pres p s (s\<lparr>queue := ts\<rparr>)"
  by (rule presI[where N = "{}"]) (auto simp: ext_same settlement_def timers_def)

lemma pres_invoked: "pres p s (s\<lparr>invoked := l\<rparr>)"
  by (rule presI[where N = "{}"]) (auto simp: ext_same settlement_def timers_def)

lemma set_timers:
  "set (timers s) = set (queue s) \<union>
     (\<Union>pr\<in>set (heap s). timer_of ` (set (onFulfilledCbs pr) \<union> set (onRejectedCbs pr)))"
  by (auto simp: timers_def)

lemma timers_update:
  "set (timers (s\<lparr>heap := (heap s)[q := pr]\<rparr>)) \<subseteq>
     set (timers s) \<union> timer_of ` (set (onFulfilledCbs pr) \<union> set (onRejectedCbs pr))"
proof -
  have "set ((heap s)[q := pr]) \<subseteq> insert pr (set (heap s))"
    by (rule set_update_subset_insert)
  then show ?thesis unfolding set_timers by (simp add: subset_iff) blast
qed

lemma timers_member:
  "q < length (heap s) \<Longrightarrow>
   timer_of ` (set (onFulfilledCbs (heap s ! q)) \<union> set (onRejectedCbs (heap s ! q))) \<subseteq>
     set (timers s)"
  unfolding set_timers using nth_mem[of q "heap s"] by blast

lemma timers_setTimeout: "set (timers (setTimeout s t)) = insert t (set (timers s))"
  by (simp add: timers_def setTimeout_def)

lemma timers_then_method:
  "set (timers (fst (then_method s q f g))) \<subseteq> set (timers s) \<union>
     {Run_onFulfilled q (length (heap s)) (case f of Some h \<Rightarrow> h | None \<Rightarrow> Default_onFulfilled),
      Run_onRejected q (length (heap s)) (case g of Some h \<Rightarrow> h | None \<Rightarrow> Default_onRejected)}"
proof -
  let ?F = "case f of Some h \<Rightarrow> h | None \<Rightarrow> Default_onFulfilled"
  let ?G = "case g of Some h \<Rightarrow> h | None \<Rightarrow> Default_onRejected"
  let ?s1 = "fst (new_promise s)"
  have t1: "timers ?s1 = timers s"
    by (simp add: timers_def new_promise_def)
  have ex: "fst (then_method s q f g) = then_executor ?s1 q (length (heap s)) ?F ?G"
    by (simp add: then_method_def split_beta new_promise_def)
  show ?thesis
  proof (cases "status (heap ?s1 ! q)")
    case STATUS_PENDING
    let ?pr = "(heap ?s1 ! q)\<lparr>onFulfilledCbs := onFulfilledCbs (heap ?s1 ! q) @
                     [Schedule (Run_onFulfilled q (length (heap s)) ?F)],
                 onRejectedCbs := onRejectedCbs (heap ?s1 ! q) @
                     [Schedule (Run_onRejected q (length (heap s)) ?G)]\<rparr>"
    have eq: "then_executor ?s1 q (length (heap s)) ?F ?G = ?s1\<lparr>heap := (heap ?s1)[q := ?pr]\<rparr>"
      using STATUS_PENDING by (simp add: then_executor_def Let_def)
    show ?thesis
    proof (cases "q < length (heap ?s1)")
      case True
      have A: "set (timers (?s1\<lparr>heap := (heap ?s1)[q := ?pr]\<rparr>)) \<subseteq>
          set (timers ?s1) \<union> timer_of ` (set (onFulfilledCbs ?pr) \<union> set (onRejectedCbs ?pr))"
        by (rule timers_update)
      have B: "timer_of ` (set (onFulfilledCbs ?pr) \<union> set (onRejectedCbs ?pr)) \<subseteq>
          set (timers ?s1) \<union> {Run_onFulfilled q (length (heap s)) ?F,
            Run_onRejected q (length (heap s)) ?G}"
        using timers_member[OF True] by auto
      from A B show ?thesis
        unfolding ex eq t1 by blast
    next
      case False
      then have "(heap ?s1)[q := ?pr] = heap ?s1" by (simp add: list_update_beyond)
      then have "?s1\<lparr>heap := (heap ?s1)[q := ?pr]\<rparr> = ?s1" by simp
      then show ?thesis unfolding ex eq using t1 by auto
    qed
  next
    case STATUS_FULFILLED
    then have "then_executor ?s1 q (length (heap s)) ?F ?G =
        setTimeout ?s1 (Run_onFulfilled q (length (heap s)) ?F)"
      by (simp add: then_executor_def Let_def setTimeout_def)
    then show ?thesis
      unfolding ex using t1 by (auto simp: timers_setTimeout)
  next
    case STATUS_REJECTED
    then have "then_executor ?s1 q (length (heap s)) ?F ?G =
        setTimeout ?s1 (Run_onRejected q (length (heap s)) ?G)"
      by (simp add: then_executor_def Let_def setTimeout_def)
    then show ?thesis
      unfolding ex using t1 by (auto simp: timers_setTimeout)
  qed
qed

lemma ext_then_method: "ext s (fst (then_method s q f g))"
  by (simp add: ext_def then_method_simps)

lemma pres_then_method:
  assumes "\<And>h. f = Some h \<Longrightarrow> handler_ok p s h" and "\<And>h. g = Some h \<Longrightarrow> handler_ok p s h"
  shows "pres p s (fst (then_method s q f g))"
proof (rule presI[OF ext_then_method _ timers_then_method])
  assume ok: "state_ok p s"
  then have p: "p < length (heap s)" by (simp add: state_ok_def)
  show "settlement (fst (then_method s q f g)) p = settlement s p"
    by (rule then_method_settlement[OF p])
  let ?s = "fst (then_method s q f g)"
  have d: "allowed p ?s (length (heap s))"
    using p by (simp add: allowed_def then_method_simps)
  have F: "handler_ok p ?s (case f of Some h \<Rightarrow> h | None \<Rightarrow> Default_onFulfilled)"
    using assms(1) by (cases f) (auto intro: handler_ok_ext[OF ext_then_method])
  have G: "handler_ok p ?s (case g of Some h \<Rightarrow> h | None \<Rightarrow> Default_onRejected)"
    using assms(2) by (cases g) (auto intro: handler_ok_ext[OF ext_then_method])
  show "\<forall>t\<in>{Run_onFulfilled q (length (heap s)) (case f of Some h \<Rightarrow> h | None \<Rightarrow> Default_onFulfilled),
      Run_onRejected q (length (heap s)) (case g of Some h \<Rightarrow> h | None \<Rightarrow> Default_onRejected)}.
      task_ok p ?s t"
    using d F G by simp
qed

lemma pres_settle:
  assumes q: "allowed p s q"
    and upd: "status pr = st'" "onFulfilledCbs pr = onFulfilledCbs (heap s ! q)"
      "onRejectedCbs pr = onRejectedCbs (heap s ! q)"
    and new: "set ts \<subseteq> timer_of ` (set (onFulfilledCbs (heap s ! q)) \<union> set (onRejectedCbs (heap s ! q)))"
  shows "pres p s (s\<lparr>heap := (heap s)[q := pr], queue := queue s @ ts\<rparr>)"
proof (rule presI[where N = "{}"])
  let ?s = "s\<lparr>heap := (heap s)[q := pr], queue := queue s @ ts\<rparr>"
  show "ext s ?s" by (simp add: ext_def)
  from q have ql: "q < length (heap s)" and qp: "q \<noteq> p" by (simp_all add: allowed_def)
  show "settlement ?s p = settlement s p"
    using qp by (simp add: settlement_def)
  have "set (timers ?s) \<subseteq> set (timers (s\<lparr>heap := (heap s)[q := pr]\<rparr>)) \<union> set ts"
    by (auto simp: timers_def)
  also have "\<dots> \<subseteq> set (timers s)"
    using timers_update[of s q pr] timers_member[OF ql] new upd by auto
  finally show "set (timers ?s) \<subseteq> set (timers s) \<union> {}" by simp
qed simp

lemma pres_reject_cap:
  assumes "allowed p s q"
  shows "pres p s (reject_cap s q r)"
proof (cases "status (heap s ! q) = STATUS_PENDING")
  case True
  have "reject_cap s q r = s\<lparr>heap := (heap s)[q := (heap s ! q)\<lparr>status := STATUS_REJECTED, reason := r\<rparr>],
      queue := queue s @ map timer_of (onRejectedCbs (heap s ! q))\<rparr>"
    using True by (simp add: reject_cap_def invokeArrayFns_eq)
  then show ?thesis
    using pres_settle[OF assms, of "(heap s ! q)\<lparr>status := STATUS_REJECTED, reason := r\<rparr>"
        STATUS_REJECTED "map timer_of (onRejectedCbs (heap s ! q))"]
    by auto
next
  case False
  then show ?thesis by (simp add: reject_cap_def pres_refl)
qed

lemma pres_resolve_cap:
  assumes "allowed p s q"
  shows "pres p s (fst (resolve_cap s q v))"
proof (cases "shape_of v")
  case (Instance k)
  show ?thesis
    unfolding resolve_cap_Instance[OF Instance] fst_conv
    using assms by (intro pres_then_method) auto
next
  case Primitive
  then have plain: "\<And>k. shape_of v \<noteq> Instance k" by simp
  show ?thesis
  proof (cases "status (heap s ! q) = STATUS_PENDING")
    case True
    have "fst (resolve_cap s q v) = s\<lparr>heap := (heap s)[q := (heap s ! q)\<lparr>status := STATUS_FULFILLED, pvalue := v\<rparr>],
        queue := queue s @ map timer_of (onFulfilledCbs (heap s ! q))\<rparr>"
      using True by (simp add: resolve_cap_plain[OF plain] invokeArrayFns_eq)
    then show ?thesis
      using pres_settle[OF assms, of "(heap s ! q)\<lparr>status := STATUS_FULFILLED, pvalue := v\<rparr>"
          STATUS_FULFILLED "map timer_of (onFulfilledCbs (heap s ! q))"]
      by auto
  next
    case False
    then show ?thesis by (simp add: resolve_cap_plain[OF plain] pres_refl)
  qed
next
  case (Object tp)
  then have plain: "\<And>k. shape_of v \<noteq> Instance k" by simp
  show ?thesis
  proof (cases "status (heap s ! q) = STATUS_PENDING")
    case True
    have "fst (resolve_cap s q v) = s\<lparr>heap := (heap s)[q := (heap s ! q)\<lparr>status := STATUS_FULFILLED, pvalue := v\<rparr>],
        queue := queue s @ map timer_of (onFulfilledCbs (heap s ! q))\<rparr>"
      using True by (simp add: resolve_cap_plain[OF plain] invokeArrayFns_eq)
    then show ?thesis
      using pres_settle[OF assms, of "(heap s ! q)\<lparr>status := STATUS_FULFILLED, pvalue := v\<rparr>"
          STATUS_FULFILLED "map timer_of (onFulfilledCbs (heap s ! q))"]
      by auto
  next
    case False
    then show ?thesis by (simp add: resolve_cap_plain[OF plain] pres_refl)
  qed
next
  case (Function tp)
  then have plain: "\<And>k. shape_of v \<noteq> Instance k" by simp
  show ?thesis
  proof (cases "status (heap s ! q) = STATUS_PENDING")
    case True
    have "fst (resolve_cap s q v) = s\<lparr>heap := (heap s)[q := (heap s ! q)\<lparr>status := STATUS_FULFILLED, pvalue := v\<rparr>],
        queue := queue s @ map timer_of (onFulfilledCbs (heap s ! q))\<rparr>"
      using True by (simp add: resolve_cap_plain[OF plain] invokeArrayFns_eq)
    then show ?thesis
      using pres_settle[OF assms, of "(heap s ! q)\<lparr>status := STATUS_FULFILLED, pvalue := v\<rparr>"
          STATUS_FULFILLED "map timer_of (onFulfilledCbs (heap s ! q))"]
      by auto
  next
    case False
    then show ?thesis by (simp add: resolve_cap_plain[OF plain] pres_refl)
  qed
qed

lemma pres_call_settler:
  "allowed p s (settler_of t) \<Longrightarrow> pres p s (fst (call_settler s t v))"
  by (cases t) (simp_all add: pres_resolve_cap pres_reject_cap)

lemma pres_ext: "pres p s s' \<Longrightarrow> ext s s'"
  by (simp add: pres_def)

lemma pres_allowed: "pres p s s' \<Longrightarrow> allowed k s q \<Longrightarrow> allowed k s' q"
  by (auto intro: allowed_ext pres_ext)

lemma pres_catch_block:
  assumes "allowed p s (settler_of reject)"
  shows "pres p s (catch_block s c reject e)"
proof (cases "called s ! c")
  case True
  then show ?thesis by (simp add: catch_block_def pres_refl)
next
  case False
  have "pres p (set_flag s c) (fst (call_settler (set_flag s c) reject e))"
    using assms by (intro pres_call_settler pres_allowed[OF pres_flags(1)])
  from pres_trans[OF pres_flags(1) this] False show ?thesis
    by (simp add: catch_block_def)
qed

lemma pres_rejectPromise:
  assumes "allowed p s (settler_of reject)"
  shows "pres p s (rejectPromise s c reject r)"
  using pres_catch_block[OF assms, of c r] by (simp add: rejectPromise_def catch_block_def)

lemma env_ok_ext: "ext s s' \<Longrightarrow> env_ok p s env \<Longrightarrow> env_ok p s' env"
  by (auto simp: env_ok_def list_all_iff intro: allowed_ext)

lemma pres_env_ok: "pres k s s' \<Longrightarrow> env_ok p s env \<Longrightarrow> env_ok p s' env"
  by (auto intro: env_ok_ext pres_ext)

lemma env_ok_nth:
  "env_ok p s env \<Longrightarrow> n < length env \<Longrightarrow>
   allowed p s (settler_of (fst (snd (snd (env ! n))))) \<and>
   allowed p s (settler_of (snd (snd (snd (env ! n)))))"
  by (simp add: env_ok_def list_all_length)

lemma env_ok_Cons:
  "env_ok p s ((c, promise, resolve, reject) # env) \<longleftrightarrow>
   allowed p s (settler_of resolve) \<and> allowed p s (settler_of reject) \<and> env_ok p s env"
  by (simp add: env_ok_def)

lemma pres_procedure:
  "allowed p st (settler_of resolve) \<Longrightarrow> allowed p st (settler_of reject) \<Longrightarrow>
   env_ok p st env \<Longrightarrow>
     pres p st (fst (promiseResolutionProcedure st promise x resolve reject env))"
  "allowed p st (settler_of resolve) \<Longrightarrow> allowed p st (settler_of reject) \<Longrightarrow>
   env_ok p st env \<Longrightarrow>
     pres p st (fst (try_block st x tp c promise resolve reject env))"
  "allowed p st (settler_of resolve) \<Longrightarrow> allowed p st (settler_of reject) \<Longrightarrow>
   env_ok p st env \<Longrightarrow>
     pres p st (fst (then_call_guarded st acts c promise resolve reject env))"
  "allowed p st (settler_of resolve) \<Longrightarrow> allowed p st (settler_of reject) \<Longrightarrow>
   env_ok p st env \<Longrightarrow>
     pres p st (resolvePromise st c promise resolve reject env y)"
proof (induction st promise x resolve reject env and st x tp c promise resolve reject env
    and st acts c promise resolve reject env and st c promise resolve reject env y
    rule: promiseResolutionProcedure_try_block_then_call_guarded_resolvePromise.induct)
  case (1 st promise x resolve reject env)
  note a = "1.prems"
  show ?case
  proof (cases "x = VPromise promise")
    case True
    then show ?thesis using a by (simp add: procedure_cyclic pres_call_settler)
  next
    case False
    let ?s0 = "fst (new_flag st)"
    have a0: "allowed p ?s0 (settler_of resolve)" "allowed p ?s0 (settler_of reject)"
      "env_ok p ?s0 env"
      using a by (auto intro: pres_allowed[OF pres_flags(2)] pres_env_ok[OF pres_flags(2)])
    have ih: "pres p ?s0 (fst (try_block ?s0 x tp (snd (new_flag st)) promise resolve reject env))"
      if "then_member (shape_of x) = Some tp" for tp
    proof (cases "shape_of x")
      case (Object t)
      with that have "tp = t" by simp
      with "1.IH"(2)[OF False Object refl prod.collapse _ a0] show ?thesis by simp
    next
      case (Function t)
      with that have "tp = t" by simp
      with "1.IH"(3)[OF False Function refl prod.collapse _ a0] show ?thesis by simp
    qed (use that in simp_all)
    show ?thesis
    proof (cases "then_member (shape_of x)")
      case None
      then show ?thesis
      proof (cases "shape_of x")
        case Primitive
        then show ?thesis using a0
          by (auto simp: procedure_Primitive
              intro: pres_trans[OF pres_flags(2) pres_call_settler])
      next
        case (Instance q)
        then show ?thesis using False a
          by (auto simp: procedure_Instance intro!: pres_then_method)
      qed simp_all
    next
      case (Some tp)
      have snd_new: "snd (new_flag st) = length (called st)"
        by (simp add: new_flag_def)
      let ?r = "try_block ?s0 x tp (length (called st)) promise resolve reject env"
      have step: "pres p ?s0 (fst ?r)" using ih[OF Some] by (simp add: snd_new)
      have "pres p (fst ?r) (catch_block (fst ?r) (length (called st)) reject e)" for e
        using a0(2) by (intro pres_catch_block pres_allowed[OF step])
      then show ?thesis using step
        by (auto simp: procedure_object[OF Some] split_beta split: option.splits
            intro: pres_trans[OF pres_flags(2)] pres_trans[OF pres_trans[OF pres_flags(2) step]])
    qed
  qed
next
  case (2 st x c promise resolve reject env)
  then show ?case by (simp add: pres_call_settler)
next
  case (3 st x e c promise resolve reject env)
  show ?case by (simp add: pres_refl)
next
  case (4 st x acts c promise resolve reject env)
  then show ?case by simp
next
  case (5 st c promise resolve reject env)
  show ?case by (simp add: pres_refl)
next
  case (6 st y acts c promise resolve reject env)
  note a = "6.prems"
  let ?s1 = "resolvePromise st c promise resolve reject ((c, promise, resolve, reject) # env) y"
  have one: "pres p st ?s1"
    using a by (intro "6.IH"(1)) (simp_all add: env_ok_Cons)
  have "pres p ?s1 (fst (then_call_guarded ?s1 acts c promise resolve reject env))"
    using a by (intro "6.IH"(2) pres_allowed[OF one] pres_env_ok[OF one])
  from pres_trans[OF one this] show ?case by simp
next
  case (7 st r acts c promise resolve reject env)
  note a = "7.prems"
  let ?s1 = "rejectPromise st c reject r"
  have one: "pres p st ?s1" using a by (intro pres_rejectPromise)
  have "pres p ?s1 (fst (then_call_guarded ?s1 acts c promise resolve reject env))"
    using a by (intro "7.IH" pres_allowed[OF one] pres_env_ok[OF one])
  from pres_trans[OF one this] show ?case by simp
next
  case (8 st e acts c promise resolve reject env)
  show ?case by (simp add: pres_refl)
next
  case (9 st block acts c promise resolve reject env)
  note a = "9.prems"
  let ?s0 = "setTimeout st (Later_guarded block c promise resolve reject env)"
  have one: "pres p st ?s0" using a by (intro pres_setTimeout) simp
  have "pres p ?s0 (fst (then_call_guarded ?s0 acts c promise resolve reject env))"
    using a by (intro "9.IH" pres_allowed[OF one] pres_env_ok[OF one])
  from pres_trans[OF one this] show ?case by simp
next
  case (10 st n y acts c promise resolve reject env)
  note a = "10.prems"
  show ?case
  proof (cases "n < length env")
    case True
    let ?s1 = "resolvePromise st (fst (env ! n)) (fst (snd (env ! n)))
        (fst (snd (snd (env ! n)))) (snd (snd (snd (env ! n))))
        ((c, promise, resolve, reject) # env) y"
    have one: "pres p st ?s1"
      using a env_ok_nth[OF a(3) True] by (intro "10.IH"(1)[OF True]) (simp_all add: env_ok_Cons)
    have "pres p ?s1 (fst (then_call_guarded ?s1 acts c promise resolve reject env))"
      using a "10.IH"(2) True pres_allowed[OF one] pres_env_ok[OF one] by simp
    from pres_trans[OF one this] True show ?thesis by simp
  next
    case False
    with "10.IH"(2) a show ?thesis by simp
  qed
next
  case (11 st n r acts c promise resolve reject env)
  note a = "11.prems"
  show ?case
  proof (cases "n < length env")
    case True
    let ?s1 = "rejectPromise st (fst (env ! n)) (snd (snd (snd (env ! n)))) r"
    have one: "pres p st ?s1"
      using env_ok_nth[OF a(3) True] by (intro pres_rejectPromise) simp
    have "pres p ?s1 (fst (then_call_guarded ?s1 acts c promise resolve reject env))"
      using a "11.IH" True pres_allowed[OF one] pres_env_ok[OF one] by simp
    from pres_trans[OF one this] True show ?thesis by simp
  next
    case False
    with "11.IH" a show ?thesis by simp
  qed
next
  case (12 st c promise resolve reject env y)
  note a = "12.prems"
  show ?case
  proof (cases "called st ! c")
    case True
    then show ?thesis by (simp add: resolvePromise.simps pres_refl)
  next
    case False
    let ?s0 = "set_flag st c"
    have "pres p ?s0 (fst (promiseResolutionProcedure ?s0 promise y resolve reject env))"
      using a by (intro "12.IH"[OF False] pres_allowed[OF pres_flags(1)]
          pres_env_ok[OF pres_flags(1)])
    from pres_trans[OF pres_flags(1) this] False show ?thesis
      by (simp add: resolvePromise.simps)
  qed
qed

lemma target_update:
  "target (xs[c := (xs ! c)\<lparr>res := r, fulfilledCount := k\<rparr>] ! j) = target (xs ! j)"
  by (cases "c < length xs"; cases "j = c"; simp add: list_update_beyond)

lemma stable_ext: "stable ext"
  unfolding stable_def procedure_stable_def
proof (intro conjI allI impI)
  fix s :: state and t v
  show "ext s (fst (call_settler s t v))"
  proof (cases t)
    case (Resolve_of q)
    then show ?thesis
      by (cases "shape_of v")
        (auto simp: ext_def resolve_cap_def split_beta then_method_simps invokeArrayFns_eq)
  next
    case (Reject_of q)
    then show ?thesis by (simp add: ext_def reject_cap_def invokeArrayFns_eq)
  qed
next
  fix s :: state and c r k
  show "ext s (s\<lparr>alls := (alls s)[c := (alls s ! c)\<lparr>res := r, fulfilledCount := k\<rparr>]\<rparr>)"
    by (simp add: ext_def target_update)
qed (auto simp: ext_def then_method_simps set_flag_def new_flag_def setTimeout_def)

lemma pres_processRes:
  assumes "c < length (alls s)" and "allowed p s (target (alls s ! c))"
  shows "pres p s (processRes s c i v)"
proof -
  let ?a = "(alls s ! c)\<lparr>res := array_set (res (alls s ! c)) i v,
      fulfilledCount := fulfilledCount (alls s ! c) + 1\<rparr>"
  let ?s1 = "s\<lparr>alls := (alls s)[c := ?a]\<rparr>"
  have e: "ext s ?s1" by (simp add: ext_def target_update)
  have one: "pres p s ?s1"
    by (rule presI[where N = "{}", OF e]) (simp_all add: settlement_def timers_def)
  have t: "target (alls ?s1 ! c) = target (alls s ! c)" using assms(1) by simp
  have two: "pres p ?s1 (fst (resolve_cap ?s1 (target (alls s ! c)) (VRes c)))"
    using assms(2) by (intro pres_resolve_cap allowed_ext[OF e])
  show ?thesis
  proof (cases "array_length ?s1 (all_iterable ?a) = Some (fulfilledCount ?a)")
    case True
    then have "processRes s c i v = fst (resolve_cap ?s1 (target (alls s ! c)) (VRes c))"
      by (simp add: processRes_def Let_def)
    with pres_trans[OF one two] show ?thesis by (simp only:)
  next
    case False
    then have "processRes s c i v = ?s1"
      by (simp add: processRes_def Let_def)
    with one show ?thesis by (simp only:)
  qed
qed

lemma pres_apply_handler:
  assumes "handler_ok p s h"
  shows "pres p s (fst (apply_handler s h v))"
  using assms
  by (cases h)
    (simp_all add: split_beta pres_refl pres_invoked pres_procedure pres_call_settler
      pres_resolve_cap pres_reject_cap pres_processRes env_ok_def)

lemma pres_handler_ok: "pres k s s' \<Longrightarrow> handler_ok p s h \<Longrightarrow> handler_ok p s' h"
  by (auto intro: handler_ok_ext pres_ext)

lemma pres_then_call_plain:
  "handler_ok p st f \<Longrightarrow> handler_ok p st g \<Longrightarrow> pres p st (fst (then_call_plain st acts f g))"
proof (induction st acts f g rule: then_call_plain.induct)
  case (1 st onF onR)
  show ?case by (simp add: pres_refl)
next
  case (2 st y acts onF onR)
  note app = pres_apply_handler[OF "2.prems"(1), of y]
  show ?case
  proof (cases "snd (apply_handler st onF y)")
    case (Inl e)
    then show ?thesis using app by (simp add: split_beta)
  next
    case (Inr r)
    have "pres p (fst (apply_handler st onF y))
        (fst (then_call_plain (fst (apply_handler st onF y)) acts onF onR))"
      using "2.prems" by (intro "2.IH"[OF prod.collapse Inr] pres_handler_ok[OF app])
    from pres_trans[OF app this] Inr show ?thesis by (simp add: split_beta)
  qed
next
  case (3 st y acts onF onR)
  note app = pres_apply_handler[OF "3.prems"(2), of y]
  show ?case
  proof (cases "snd (apply_handler st onR y)")
    case (Inl e)
    then show ?thesis using app by (simp add: split_beta)
  next
    case (Inr r)
    have "pres p (fst (apply_handler st onR y))
        (fst (then_call_plain (fst (apply_handler st onR y)) acts onF onR))"
      using "3.prems" by (intro "3.IH"[OF prod.collapse Inr] pres_handler_ok[OF app])
    from pres_trans[OF app this] Inr show ?thesis by (simp add: split_beta)
  qed
next
  case (4 st e acts onF onR)
  show ?case by (simp add: pres_refl)
next
  case (5 st block acts onF onR)
  let ?s0 = "setTimeout st (Later_plain block onF onR)"
  have one: "pres p st ?s0" using "5.prems" by (intro pres_setTimeout) simp
  have "pres p ?s0 (fst (then_call_plain ?s0 acts onF onR))"
    using "5.prems" by (intro "5.IH" pres_handler_ok[OF one])
  from pres_trans[OF one this] show ?case by simp
next
  case (6 st n y acts onF onR)
  then show ?case by simp
next
  case (7 st n r acts onF onR)
  then show ?case by simp
qed

lemma pres_run_task:
  assumes "task_ok p s t"
  shows "pres p s (run_task s t)"
proof (cases t)
  case (Run_onFulfilled this d h)
  with assms have d: "allowed p s d" and h: "handler_ok p s h" by simp_all
  let ?r = "apply_handler s h (pvalue (heap s ! this))"
  note app = pres_apply_handler[OF h, of "pvalue (heap s ! this)"]
  have d1: "allowed p (fst ?r) d" by (rule pres_allowed[OF app d])
  have "pres p (fst ?r) (fst (promiseResolutionProcedure (fst ?r) d x (Resolve_of d) (Reject_of d) []))" for x
    using d1 by (intro pres_procedure) (simp_all add: env_ok_def)
  moreover have "pres p (fst ?r) (reject_cap (fst ?r) d e)" for e
    using d1 by (rule pres_reject_cap)
  ultimately show ?thesis using Run_onFulfilled
    by (auto simp: split_beta split: sum.splits intro: pres_trans[OF app])
next
  case (Run_onRejected this d h)
  with assms have d: "allowed p s d" and h: "handler_ok p s h" by simp_all
  let ?r = "apply_handler s h (reason (heap s ! this))"
  note app = pres_apply_handler[OF h, of "reason (heap s ! this)"]
  have d1: "allowed p (fst ?r) d" by (rule pres_allowed[OF app d])
  have "pres p (fst ?r) (fst (promiseResolutionProcedure (fst ?r) d x (Resolve_of d) (Reject_of d) []))" for x
    using d1 by (intro pres_procedure) (simp_all add: env_ok_def)
  moreover have "pres p (fst ?r) (reject_cap (fst ?r) d e)" for e
    using d1 by (rule pres_reject_cap)
  ultimately show ?thesis using Run_onRejected
    by (auto simp: split_beta split: sum.splits intro: pres_trans[OF app])
next
  case (Later_guarded block c promise resolve reject env)
  with assms show ?thesis by (simp add: pres_procedure)
next
  case (Later_plain block f g)
  with assms show ?thesis by (simp add: pres_then_call_plain)
qed

lemma pres_turn: "pres p s (turn s)"
  unfolding pres_def
proof (intro conjI impI)
  show "ext s (turn s)" by (rule stable_turn[OF stable_ext])
  assume ok: "state_ok p s"
  show "state_ok p (turn s)" and "settlement (turn s) p = settlement s p"
  proof -
    have "state_ok p (turn s) \<and> settlement (turn s) p = settlement s p"
    proof (cases "queue s")
      case Nil
      with ok show ?thesis by (simp add: turn_def)
    next
      case (Cons t ts)
      let ?s0 = "s\<lparr>queue := ts\<rparr>"
      have one: "pres p s ?s0" by (rule pres_queue_tl[OF Cons])
      have "t \<in> set (timers s)" using Cons by (simp add: timers_def)
      with ok have "task_ok p s t" by (simp add: state_ok_def)
      then have "task_ok p ?s0 t" by (rule task_ok_ext[OF pres_ext[OF one]])
      from pres_trans[OF one pres_run_task[OF this]] ok Cons show ?thesis
        by (simp add: pres_def turn_def)
    qed
    then show "state_ok p (turn s)" and "settlement (turn s) p = settlement s p" by simp_all
  qed
qed

lemma pres_run: "pres p s (run n s)"
proof (induction n arbitrary: s)
  case 0
  show ?case by (simp add: pres_refl)
next
  case (Suc n)
  from pres_trans[OF pres_turn Suc.IH] show ?case by simp
qed

section \<open>Input that is not iterable\<close>

text \<open>
  C9.  Given a value that is not iterable, \<^verbatim>\<open>all\<close>, \<^verbatim>\<open>race\<close> and \<^verbatim>\<open>allSettled\<close> return
  at once, with the store unchanged (no promise is made), and the value returned is a
  \<^verbatim>\<open>TypeError\<close> object, not a promise.
\<close>

theorem not_iterable_returned:
  "\<not> isIterable v \<Longrightarrow>
   promise_all st v = (st, not_iterable v) \<and>
   promise_race st v = (st, not_iterable v) \<and>
   promise_allSettled st v = Inr (st, not_iterable v) \<and>
   (\<exists>m. not_iterable v = VTypeError m) \<and>
   (\<forall>q. not_iterable v \<noteq> VPromise q)"
  by (simp add: promise_all_def promise_race_def promise_allSettled_def not_iterable_def)

theorem not_iterable_returned_witness:
  "\<not> isIterable (VNum 5) \<and>
   promise_all init_state (VNum 5) = (init_state, VTypeError
     ''TypeError: number is not iterable (cannot read property Symbol(Symbol.iterator))'') \<and>
   promise_race init_state (VNum 5) = (init_state, VTypeError
     ''TypeError: number is not iterable (cannot read property Symbol(Symbol.iterator))'') \<and>
   promise_allSettled init_state (VNum 5) = Inr (init_state, VTypeError
     ''TypeError: number is not iterable (cannot read property Symbol(Symbol.iterator))'')"
  using not_iterable_returned[of "VNum 5" init_state]
  by (simp add: not_iterable_def)

section \<open>\<^verbatim>\<open>race\<close> of nothing\<close>

lemma well_formed_fresh:
  assumes "well_formed st"
  shows "state_ok (length (heap st)) (fst (new_promise st))"
proof -
  let ?s = "fst (new_promise st)"
  have e: "ext st ?s" by (simp add: ext_def new_promise_simps)
  have t: "timers ?s = timers st" by (simp add: timers_def new_promise_def)
  show ?thesis
    using assms task_ok_ext[OF e]
    by (auto simp: well_formed_def state_ok_def t new_promise_simps)
qed

lemma cannot_settle:
  assumes "state_ok p s"
  shows "settlement (run n s) p = settlement s p"
  using pres_run[of p s n] assms by (simp add: pres_def)

text \<open>
  C10.  \<^verbatim>\<open>race\<close> of an iterable without elements returns a new pending promise and does
  nothing else: no callback is registered on it and no timer is set.  In a well-formed
  store no closure has a settlement capability of the new promise, so it is pending, with
  neither value nor reason, after any number of turns of the event loop, whatever timer
  functions are waiting.
\<close>

theorem race_empty_pending:
  "isIterable v \<Longrightarrow> elements st v = [] \<Longrightarrow>
   promise_race st v = (fst (new_promise st), VPromise (length (heap st))) \<and>
   heap (fst (promise_race st v)) = heap st @
     [\<lparr>status = STATUS_PENDING, pvalue = VNull, reason = VNull,
       onFulfilledCbs = [], onRejectedCbs = []\<rparr>] \<and>
   queue (fst (promise_race st v)) = queue st \<and>
   (well_formed st \<longrightarrow>
      state_ok (length (heap st)) (fst (promise_race st v)) \<and>
      (\<forall>n. settlement (run n (fst (promise_race st v))) (length (heap st)) =
         (STATUS_PENDING, VNull, VNull)))"
proof -
  assume a: "isIterable v" "elements st v = []"
  have r: "promise_race st v = (fst (new_promise st), VPromise (length (heap st)))"
    using a by (simp add: promise_race_def split_beta new_promise_simps)
  have "settlement (run n (fst (new_promise st))) (length (heap st)) =
      (STATUS_PENDING, VNull, VNull)" if "well_formed st" for n
    using cannot_settle[OF well_formed_fresh[OF that], of n]
    by (simp add: settlement_def new_promise_simps)
  then show ?thesis
    using well_formed_fresh by (simp add: r new_promise_simps)
qed

lemma waiting_example_eq:
  "waiting_example = \<lparr>heap = [\<lparr>status = STATUS_FULFILLED, pvalue = VNum 5, reason = VNull,
      onFulfilledCbs = [], onRejectedCbs = []\<rparr>,
      \<lparr>status = STATUS_PENDING, pvalue = VNull, reason = VNull,
      onFulfilledCbs = [], onRejectedCbs = []\<rparr>],
      queue = [Run_onFulfilled 0 1 (UserFn 1 Inr)], called = [], alls = [], invoked = []\<rparr>"
  by (simp add: waiting_example_def examples_eq then_method_def then_executor_def new_promise_def
      setTimeout_def)

theorem race_empty_pending_witness:
  "isIterable (VArr []) \<and> elements waiting_example (VArr []) = [] \<and>
   well_formed waiting_example \<and> queue waiting_example \<noteq> [] \<and>
   promise_race waiting_example (VArr []) = (fst (new_promise waiting_example), VPromise 2) \<and>
   settlement (run 5 (fst (promise_race waiting_example (VArr [])))) 2 =
     (STATUS_PENDING, VNull, VNull)"
proof -
  have h: "isIterable (VArr [])" "elements waiting_example (VArr []) = []"
    by simp_all
  have wf: "well_formed waiting_example"
    by (simp add: well_formed_def waiting_example_eq timers_def allowed_def)
  have len: "length (heap waiting_example) = 2"
    by (simp add: waiting_example_eq)
  note w = race_empty_pending[OF h]
  from w have a: "promise_race waiting_example (VArr []) =
      (fst (new_promise waiting_example), VPromise 2)"
    by (simp add: len)
  from w wf have "\<forall>n. settlement (run n (fst (promise_race waiting_example (VArr []))))
      (length (heap waiting_example)) = (STATUS_PENDING, VNull, VNull)"
    by blast
  then have b: "settlement (run 5 (fst (promise_race waiting_example (VArr [])))) 2 =
     (STATUS_PENDING, VNull, VNull)"
    by (simp add: len)
  show ?thesis
    by (intro conjI h wf a b) (simp add: waiting_example_eq)
qed

section \<open>Handlers run from the timer queue only\<close>

lemma invoked_procedure:
  "invoked (fst (promiseResolutionProcedure st promise x resolve reject env)) = invoked st"
  "invoked (fst (try_block st x tp c promise resolve reject env)) = invoked st"
  "invoked (fst (then_call_guarded st acts c promise resolve reject env)) = invoked st"
proof -
  have ps: "procedure_stable (\<lambda>s s'. invoked s' = invoked s)"
    by (simp add: procedure_stable_def invoked_call_settler then_method_simps set_flag_def
        new_flag_def setTimeout_def)
  show "invoked (fst (promiseResolutionProcedure st promise x resolve reject env)) = invoked st"
    by (rule stable_procedure(1)[OF ps])
  show "invoked (fst (try_block st x tp c promise resolve reject env)) = invoked st"
    by (rule stable_procedure(2)[OF ps])
  show "invoked (fst (then_call_guarded st acts c promise resolve reject env)) = invoked st"
    by (rule stable_procedure(3)[OF ps])
qed

text \<open>
  C4.  A call of \<^verbatim>\<open>then\<close> calls no handler, and neither does a call of a settlement
  capability of the source promise.  On a fulfilled (rejected) source, \<^verbatim>\<open>then\<close> puts the
  timer function of the handler at the end of the timer queue; on a pending source it
  registers two callbacks, which the settlement of the source turns into timer functions at
  the end of the queue.  The handler is called when its timer function runs, with the
  value (reason) of the source.
\<close>

theorem handlers_deferred:
  "invoked (fst (then_method st this onFulfilled onRejected)) = invoked st \<and>
   invoked (fst (resolve_cap st this v)) = invoked st \<and>
   invoked (reject_cap st this v) = invoked st \<and>
   (this < length (heap st) \<and> status (heap st ! this) = STATUS_FULFILLED \<longrightarrow>
      queue (fst (then_method st this (Some f) onRejected)) =
        queue st @ [Run_onFulfilled this (length (heap st)) f]) \<and>
   (this < length (heap st) \<and> status (heap st ! this) = STATUS_REJECTED \<longrightarrow>
      queue (fst (then_method st this onFulfilled (Some g))) =
        queue st @ [Run_onRejected this (length (heap st)) g]) \<and>
   (this < length (heap st) \<and> status (heap st ! this) = STATUS_PENDING \<longrightarrow>
      queue (fst (then_method st this (Some f) (Some g))) = queue st \<and>
      onFulfilledCbs (heap (fst (then_method st this (Some f) (Some g))) ! this) =
        onFulfilledCbs (heap st ! this) @ [Schedule (Run_onFulfilled this (length (heap st)) f)] \<and>
      onRejectedCbs (heap (fst (then_method st this (Some f) (Some g))) ! this) =
        onRejectedCbs (heap st ! this) @ [Schedule (Run_onRejected this (length (heap st)) g)] \<and>
      ((\<forall>q. shape_of v \<noteq> Instance q) \<longrightarrow>
         queue (fst (resolve_cap st this v)) = queue st @ map timer_of (onFulfilledCbs (heap st ! this))) \<and>
      queue (reject_cap st this v) = queue st @ map timer_of (onRejectedCbs (heap st ! this))) \<and>
   invoked (run_task st (Run_onFulfilled this dep (UserFn i h))) =
     invoked st @ [(i, pvalue (heap st ! this))] \<and>
   invoked (run_task st (Run_onRejected this dep (UserFn i h))) =
     invoked st @ [(i, reason (heap st ! this))]"
proof -
  have a: "invoked (run_task st (Run_onFulfilled this dep (UserFn i h))) =
     invoked st @ [(i, pvalue (heap st ! this))]"
    by (cases "h (pvalue (heap st ! this))")
      (simp_all add: invoked_procedure invoked_reject_cap)
  have b: "invoked (run_task st (Run_onRejected this dep (UserFn i h))) =
     invoked st @ [(i, reason (heap st ! this))]"
    by (cases "h (reason (heap st ! this))")
      (simp_all add: invoked_procedure invoked_reject_cap)
  have c: "queue (fst (resolve_cap st this v)) = queue st @ map timer_of (onFulfilledCbs (heap st ! this))"
    if "status (heap st ! this) = STATUS_PENDING" "\<forall>q. shape_of v \<noteq> Instance q"
    using that by (simp add: resolve_cap_plain invokeArrayFns_eq)
  have d: "queue (reject_cap st this v) = queue st @ map timer_of (onRejectedCbs (heap st ! this))"
    if "status (heap st ! this) = STATUS_PENDING"
    using that by (simp add: reject_cap_def invokeArrayFns_eq)
  show ?thesis
    using a b c d
    by (simp add: then_method_simps invoked_resolve_cap invoked_reject_cap then_method_queue
        then_method_pending nth_append)
qed

theorem handlers_deferred_witness:
  "0 < length (heap fulfilled_example) \<and> status (heap fulfilled_example ! 0) = STATUS_FULFILLED \<and>
   queue (fst (then_method fulfilled_example 0 (Some (UserFn 1 Inr)) None)) =
     [Run_onFulfilled 0 1 (UserFn 1 Inr)] \<and>
   invoked (fst (then_method fulfilled_example 0 (Some (UserFn 1 Inr)) None)) = [] \<and>
   invoked (run_task fulfilled_example (Run_onFulfilled 0 1 (UserFn 1 Inr))) = [(1, VNum 5)] \<and>
   0 < length (heap rejected_example) \<and> status (heap rejected_example ! 0) = STATUS_REJECTED \<and>
   queue (fst (then_method rejected_example 0 None (Some (UserFn 2 Inr)))) =
     [Run_onRejected 0 1 (UserFn 2 Inr)] \<and>
   invoked (run_task rejected_example (Run_onRejected 0 1 (UserFn 2 Inr))) = [(2, VStr ''no'')] \<and>
   0 < length (heap pending_example) \<and> status (heap pending_example ! 0) = STATUS_PENDING \<and>
   queue (fst (then_method pending_example 0 (Some (UserFn 1 Inr)) (Some (UserFn 2 Inr)))) = [] \<and>
   onFulfilledCbs (heap (fst (then_method pending_example 0 (Some (UserFn 1 Inr))
       (Some (UserFn 2 Inr)))) ! 0) = [Schedule (Run_onFulfilled 0 1 (UserFn 1 Inr))] \<and>
   queue (fst (resolve_cap pending_example 0 (VNum 5))) = [] \<and>
   queue (reject_cap pending_example 0 (VNum 5)) = []"
  using
    handlers_deferred[where st = fulfilled_example and this = 0 and f = "UserFn 1 Inr"
      and onRejected = None and onFulfilled = "Some (UserFn 1 Inr)" and dep = 1 and i = 1
      and h = Inr]
    handlers_deferred[where st = rejected_example and this = 0 and g = "UserFn 2 Inr"
      and onFulfilled = None and dep = 1 and i = 2 and h = Inr]
    handlers_deferred[where st = pending_example and this = 0 and f = "UserFn 1 Inr"
      and g = "UserFn 2 Inr" and v = "VNum 5"]
  by (simp add: examples_eq)

section \<open>\<^verbatim>\<open>resolve\<close> of a thenable\<close>

text \<open>
  C8.  \<^verbatim>\<open>PromiseImpl.resolve\<close> of a function with a \<^verbatim>\<open>then\<close> method that calls its first
  argument with 42 returns a promise fulfilled with the function itself; for an object
  with the same method it returns a promise fulfilled with 42.
\<close>

theorem resolve_callable_thenable:
  "(case promise_resolve init_state (VFunc (ThenFn [CallFirst (VNum 42)])) of
      Inr (st, p) \<Rightarrow> settlement st p = (STATUS_FULFILLED, VFunc (ThenFn [CallFirst (VNum 42)]), VNull)
    | Inl e \<Rightarrow> False) \<and>
   (case promise_resolve init_state (VObj (ThenFn [CallFirst (VNum 42)])) of
      Inr (st, p) \<Rightarrow> settlement st p = (STATUS_FULFILLED, VNum 42, VNull)
    | Inl e \<Rightarrow> False)"
  by (simp add: promise_resolve_def new_promise_def init_state_def resolve_cap_def
      settlement_def)

section \<open>The once-guard of the thenable branch\<close>

lemma enclosing_done_kept:
  "flags_kept st st' \<Longrightarrow> enclosing_done st env \<Longrightarrow> enclosing_done st' env"
  by (auto simp: enclosing_done_def flags_kept_def list_all_iff)

lemma enclosing_done_nth:
  "enclosing_done st env \<Longrightarrow> n < length env \<Longrightarrow>
   fst (env ! n) < length (called st) \<and> called st ! fst (env ! n)"
  by (simp add: enclosing_done_def list_all_length)

lemma enclosing_done_queue [simp]:
  "enclosing_done (st\<lparr>queue := q\<rparr>) env = enclosing_done st env"
  by (simp add: enclosing_done_def)

lemma resolvePromise_done:
  "called st ! c \<Longrightarrow> resolvePromise st c p resolve reject env y = st"
  by (simp add: resolvePromise.simps)

lemma rejectPromise_done:
  "called st ! c \<Longrightarrow> rejectPromise st c reject r = st"
  by (simp add: rejectPromise_def)

lemma catch_block_done: "called st ! c \<Longrightarrow> catch_block st c reject e = st"
  by (simp add: catch_block_def)

lemma guarded_ignored:
  "called st ! c \<Longrightarrow> enclosing_done st env \<Longrightarrow>
   then_call_guarded st acts c p resolve reject env =
     (st\<lparr>queue := queue st @ deferred acts c p resolve reject env\<rparr>, thrown acts)"
proof (induction acts arbitrary: st)
  case Nil
  show ?case by simp
next
  case (Cons a acts)
  show ?case
  proof (cases a)
    case (Later block)
    have "called (setTimeout st (Later_guarded block c p resolve reject env)) ! c"
      "enclosing_done (setTimeout st (Later_guarded block c p resolve reject env)) env"
      using Cons.prems by (simp_all add: setTimeout_def)
    from Cons.IH[OF this] Later show ?thesis
      by (simp add: setTimeout_def)
  next
    case (CallOuterFirst n y)
    then show ?thesis
      using Cons enclosing_done_nth[OF Cons.prems(2), of n]
      by (simp add: resolvePromise_done)
  next
    case (CallOuterSecond n r)
    then show ?thesis
      using Cons enclosing_done_nth[OF Cons.prems(2), of n]
      by (simp add: rejectPromise_done)
  qed (use Cons in \<open>simp_all add: resolvePromise_done rejectPromise_done\<close>)
qed

lemma flags_kept_set_flag: "flags_kept st (set_flag st c)"
  using stable_flags_kept by (simp add: stable_def procedure_stable_def)

lemma flags_kept_procedure:
  "flags_kept st (fst (promiseResolutionProcedure st p y resolve reject env))"
  "flags_kept st (fst (then_call_guarded st acts c p resolve reject env))"
  "flags_kept st (resolvePromise st c p resolve reject env y)"
  "flags_kept st (rejectPromise st c reject r)"
  "flags_kept st (fst (call_settler st t v))"
  "flags_kept st (run n st)"
  "flags_kept st (run_task st tk)"
  by (rule stable_procedure[OF stableD(1)[OF stable_flags_kept]]
      stable_rejectPromise[OF stableD(1)[OF stable_flags_kept]]
      stableD(4)[OF stable_flags_kept] stable_run[OF stable_flags_kept]
      stable_run_task[OF stable_flags_kept])+

lemma flag_set_flag: "c < length (called st) \<Longrightarrow> called (set_flag st c) ! c"
  "length (called (set_flag st c)) = length (called st)"
  by (simp_all add: set_flag_def)

lemma call_effect_flag:
  assumes "c < length (called st)" and "a = CallFirst y \<or> a = CallSecond r"
  shows "c < length (called (call_effect st a c p resolve reject env)) \<and>
         called (call_effect st a c p resolve reject env) ! c"
    and "flags_kept st (call_effect st a c p resolve reject env)"
proof -
  have f: "c < length (called (set_flag st c)) \<and> called (set_flag st c) ! c"
    using assms(1) by (simp add: flag_set_flag)
  have k: "flags_kept (set_flag st c) (call_effect st a c p resolve reject env)"
    using assms(2) by (auto simp: flags_kept_procedure)
  from flags_keptD[OF k] f
  show "c < length (called (call_effect st a c p resolve reject env)) \<and>
         called (call_effect st a c p resolve reject env) ! c" by blast
  from stableD(3)[OF stable_flags_kept flags_kept_set_flag k]
  show "flags_kept st (call_effect st a c p resolve reject env)" .
qed

lemma first_call_is_call:
  "first_call acts = Some (before, a, after) \<Longrightarrow> (\<exists>y. a = CallFirst y) \<or> (\<exists>r. a = CallSecond r)"
proof (induction acts arbitrary: before)
  case Nil
  then show ?case by simp
next
  case (Cons b acts)
  then show ?case by (cases b) (auto split: option.splits)
qed

lemma guarded_script_effect:
  assumes "c < length (called st)" and "enclosing_done st env"
  shows "then_call_guarded st acts c p resolve reject env =
     (script_effect st acts c p resolve reject env,
      if called st ! c then thrown acts
      else case first_call acts of None \<Rightarrow> thrown acts | Some (before, a, after) \<Rightarrow> thrown after)"
proof (cases "called st ! c")
  case True
  then show ?thesis using assms by (simp add: guarded_ignored script_effect_def Let_def)
next
  case False
  then show ?thesis using assms
  proof (induction acts arbitrary: st)
    case Nil
    then show ?case by (simp add: script_effect_def)
  next
    case (Cons a acts)
    show ?case
    proof (cases a)
      case (CallFirst y)
      let ?s1 = "call_effect st a c p resolve reject env"
      have eq: "resolvePromise st c p resolve reject ((c, p, resolve, reject) # env) y = ?s1"
        using Cons.prems CallFirst by (simp add: resolvePromise.simps)
      have fl: "c < length (called ?s1) \<and> called ?s1 ! c"
        using call_effect_flag(1)[OF Cons.prems(2), of a y] CallFirst by simp
      have en: "enclosing_done ?s1 env"
        using enclosing_done_kept[OF call_effect_flag(2)[OF Cons.prems(2), of a y] Cons.prems(3)]
          CallFirst by simp
      show ?thesis
        using CallFirst Cons.prems fl en
        by (simp add: eq[unfolded CallFirst] guarded_ignored script_effect_def Let_def)
    next
      case (CallSecond r)
      let ?s1 = "call_effect st a c p resolve reject env"
      have eq: "rejectPromise st c reject r = ?s1"
        using Cons.prems CallSecond by (simp add: rejectPromise_def)
      have fl: "c < length (called ?s1) \<and> called ?s1 ! c"
        using call_effect_flag(1)[OF Cons.prems(2), of a _ r] CallSecond by simp
      have en: "enclosing_done ?s1 env"
        using enclosing_done_kept[OF call_effect_flag(2)[OF Cons.prems(2), of a _ r] Cons.prems(3)]
          CallSecond by simp
      show ?thesis
        using CallSecond Cons.prems fl en
        by (simp add: eq[unfolded CallSecond] guarded_ignored script_effect_def Let_def)
    next
      case (Throw e)
      then show ?thesis using Cons.prems by (simp add: script_effect_def)
    next
      case (Later block)
      let ?s0 = "setTimeout st (Later_guarded block c p resolve reject env)"
      have "\<not> called ?s0 ! c" "c < length (called ?s0)" "enclosing_done ?s0 env"
        using Cons.prems by (simp_all add: setTimeout_def)
      from Cons.IH[OF this] Later Cons.prems show ?thesis
        by (simp add: script_effect_def setTimeout_def Let_def split: option.splits)
    next
      case (CallOuterFirst n y)
      from Cons.IH[OF Cons.prems] CallOuterFirst Cons.prems
        enclosing_done_nth[OF Cons.prems(3), of n]
      show ?thesis
        by (simp add: script_effect_def resolvePromise_done Let_def split: option.splits)
    next
      case (CallOuterSecond n r)
      from Cons.IH[OF Cons.prems] CallOuterSecond Cons.prems
        enclosing_done_nth[OF Cons.prems(3), of n]
      show ?thesis
        by (simp add: script_effect_def rejectPromise_done Let_def split: option.splits)
    qed
  qed
qed


lemma script_effect_flag:
  assumes "c < length (called s)" and "called s ! c \<or> first_call block \<noteq> None"
  shows "c < length (called (script_effect s block c p resolve reject env)) \<and>
         called (script_effect s block c p resolve reject env) ! c"
proof (cases "called s ! c")
  case True
  with assms(1) show ?thesis by (simp add: script_effect_def)
next
  case False
  with assms(2) obtain before a after where fc: "first_call block = Some (before, a, after)"
    by auto
  from first_call_is_call[OF fc] obtain y r where a: "a = CallFirst y \<or> a = CallSecond r"
    by blast
  let ?s0 = "s\<lparr>queue := queue s @ deferred before c p resolve reject env\<rparr>"
  have "c < length (called ?s0)" using assms(1) by simp
  from call_effect_flag(1)[OF this a] False fc show ?thesis
    by (simp add: script_effect_def Let_def)
qed

lemma procedure_script_effect:
  assumes x: "then_member (shape_of x) = Some (ThenFn acts)"
    and en: "enclosing_done st env"
  shows "fst (promiseResolutionProcedure st p x resolve reject env) =
      (let c = length (called st);
           s1 = script_effect (fst (new_flag st)) acts c p resolve reject env
       in case first_call acts of
            Some call \<Rightarrow> s1
          | None \<Rightarrow>
              (case thrown acts of
                 None \<Rightarrow> s1
               | Some e \<Rightarrow> fst (call_settler (set_flag s1 c) reject e)))"
proof -
  let ?c = "length (called st)"
  let ?s0 = "fst (new_flag st)"
  let ?s1 = "script_effect ?s0 acts ?c p resolve reject env"
  have c: "?c < length (called ?s0)" "\<not> called ?s0 ! ?c"
    by (simp_all add: new_flag_def)
  have en0: "enclosing_done ?s0 env"
    using en stable_flags_kept
    by (intro enclosing_done_kept[OF _ en]) (simp add: stable_def procedure_stable_def)
  note g = guarded_script_effect[OF c(1) en0, of acts p resolve reject]
  show ?thesis
  proof (cases "first_call acts")
    case None
    have "\<not> called ?s1 ! ?c" using c None by (simp add: script_effect_def)
    then show ?thesis using None c
      by (simp add: procedure_object[OF x] g catch_block_def Let_def split: option.splits)
  next
    case (Some call)
    then have "called ?s1 ! ?c"
      using script_effect_flag[OF c(1), of acts p resolve reject env] by simp
    then show ?thesis using Some c
      by (simp add: procedure_object[OF x] g catch_block_def Let_def split: option.splits)
  qed
qed

lemma outer_calls_ignored:
  assumes "enclosing_done s env"
  shows "then_call_guarded s (CallOuterFirst n v # rest) c p resolve reject env =
         then_call_guarded s rest c p resolve reject env"
    and "then_call_guarded s (CallOuterSecond n v # rest) c p resolve reject env =
         then_call_guarded s rest c p resolve reject env"
  using enclosing_done_nth[OF assms, of n]
  by (simp_all add: resolvePromise_done rejectPromise_done)

lemma enclosing_done_nested:
  assumes "c < length (called s)" and "enclosing_done s env"
  shows "enclosing_done (set_flag s c) ((c, p, resolve, reject) # env)"
  using enclosing_done_kept[OF flags_kept_set_flag assms(2), of c] assms(1)
  by (simp add: enclosing_done_def flag_set_flag)

lemma heap_script_prefix:
  "heap (set_flag (s\<lparr>queue := q\<rparr>) c) = heap s"
  "heap (fst (new_flag s)) = heap s"
  by (simp_all add: set_flag_def new_flag_def)

lemma first_call_settles:
  assumes x: "then_member (shape_of x) = Some (ThenFn acts)"
    and en: "enclosing_done st env"
    and p: "p < length (heap st)" "status (heap st ! p) = STATUS_PENDING"
  shows "first_call acts = Some (before, CallSecond r, after) \<Longrightarrow>
         settlement (run n (fst (promiseResolutionProcedure st p x resolve (Reject_of p) env))) p =
           (STATUS_REJECTED, pvalue (heap st ! p), r)"
    and "first_call acts = Some (before, CallFirst y, after) \<Longrightarrow>
         shape_of y = Primitive \<or> then_member (shape_of y) = Some ThenNone \<Longrightarrow>
         settlement (run n (fst (promiseResolutionProcedure st p x (Resolve_of p) reject env))) p =
           (STATUS_FULFILLED, y, reason (heap st ! p))"
proof -
  let ?c = "length (called st)"
  let ?s0 = "fst (new_flag st)"
  have c: "\<not> called ?s0 ! ?c" by (simp add: new_flag_def)
  have kept: "settlement (run n s) p = settlement s p"
    if "p < length (heap s)" "status (heap s ! p) \<noteq> STATUS_PENDING" for s
    using keepsD[OF stable_run[OF stable_keeps] that] .
  {
    assume fc: "first_call acts = Some (before, CallSecond r, after)"
    let ?sa = "set_flag (?s0\<lparr>queue := queue ?s0 @ deferred before ?c p resolve (Reject_of p) env\<rparr>) ?c"
    let ?s1 = "reject_cap ?sa p r"
    let ?res = "fst (promiseResolutionProcedure st p x resolve (Reject_of p) env)"
    have res: "?res = ?s1\<lparr>queue := queue ?s1 @ deferred after ?c p resolve (Reject_of p) env\<rparr>"
      using fc c by (simp add: procedure_script_effect[OF x en] script_effect_def Let_def)
    have s1: "settlement ?s1 p = (STATUS_REJECTED, pvalue (heap ?sa ! p), r)"
      using p by (intro reject_cap_pending) (simp_all add: heap_script_prefix)
    have l: "length (heap ?s1) = length (heap st)"
      by (simp add: reject_cap_others heap_script_prefix)
    have set: "settlement ?res p = (STATUS_REJECTED, pvalue (heap st ! p), r)"
      using s1 by (simp add: res settlement_def heap_script_prefix)
    have "settlement (run n ?res) p = settlement ?res p"
      using set p(1) l by (intro kept) (simp_all add: res settlement_def)
    with set show "settlement (run n ?res) p = (STATUS_REJECTED, pvalue (heap st ! p), r)"
      by simp
  }
  {
    assume fc: "first_call acts = Some (before, CallFirst y, after)"
      and y: "shape_of y = Primitive \<or> then_member (shape_of y) = Some ThenNone"
    let ?sa = "set_flag (?s0\<lparr>queue := queue ?s0 @ deferred before ?c p (Resolve_of p) reject env\<rparr>) ?c"
    let ?sb = "fst (new_flag ?sa)"
    let ?s1 = "fst (resolve_cap ?sb p y)"
    let ?res = "fst (promiseResolutionProcedure st p x (Resolve_of p) reject env)"
    have plain: "\<And>q. shape_of y \<noteq> Instance q" using y by (cases "shape_of y") auto
    have inner: "fst (promiseResolutionProcedure ?sa p y (Resolve_of p) reject
        ((?c, p, Resolve_of p, reject) # env)) = ?s1"
      using y by (auto simp: procedure_Primitive procedure_object)
    have res: "?res = ?s1\<lparr>queue := queue ?s1 @ deferred after ?c p (Resolve_of p) reject env\<rparr>"
      using fc c by (simp add: procedure_script_effect[OF x en] script_effect_def Let_def inner)
    have hb: "heap ?sb = heap st" by (simp add: heap_script_prefix)
    have s1: "settlement ?s1 p = (STATUS_FULFILLED, y, reason (heap ?sb ! p))"
      using p plain by (intro resolve_cap_pending) (simp_all add: hb)
    have l: "length (heap ?s1) = length (heap st)"
      using hb by (simp add: resolve_cap_plain[OF plain] invokeArrayFns_eq)
    have set: "settlement ?res p = (STATUS_FULFILLED, y, reason (heap st ! p))"
      using s1 by (simp add: res settlement_def hb)
    have "settlement (run n ?res) p = settlement ?res p"
      using set p(1) l by (intro kept) (simp_all add: res settlement_def)
    with set show "settlement (run n ?res) p = (STATUS_FULFILLED, y, reason (heap st ! p))"
      by simp
  }
qed

text \<open>
  C2.  Let \<open>x\<close> be a value whose \<^verbatim>\<open>then\<close> is a function with any script \<open>acts\<close>: calls of
  either callback in any number and order, a \<open>Throw\<close>, deferred blocks, calls of callbacks
  of a \<^verbatim>\<open>then\<close> around it.  The resolution procedure on \<open>x\<close>, and each deferred block
  whenever its timer function runs, do what \<open>script_effect\<close> says: while the flag
  \<^verbatim>\<open>called\<close> of this call of \<^verbatim>\<open>then\<close> is unset, the first call of one of the two
  callbacks has its effect (\<open>call_effect\<close>: the resolution procedure on \<open>y\<close>, or
  \<^verbatim>\<open>reject(r)\<close>) and every other action only hands deferred blocks to \<^verbatim>\<open>setTimeout\<close>; once
  the flag is set, nothing but that happens.  A call of a callback sets the flag before
  it does anything else, and a flag that is set stays set in every later store: so of all
  calls, made at once or from timers, only the first has an effect.  An exception of the
  script rejects with it when no call was made before, and is ignored otherwise.  The
  procedure that the first callback starts runs with the flag set, so that calls of the
  two callbacks made from inside it (by the \<^verbatim>\<open>then\<close> of \<open>y\<close>) are ignored as well.
  With the capabilities of a pending target \<open>p\<close>: if the first call is of the second
  callback with \<open>r\<close>, then \<open>p\<close> is rejected with \<open>r\<close> and stays so; if it is of the first
  callback with a \<open>y\<close> that is not a thenable, \<open>p\<close> is fulfilled with \<open>y\<close> and stays so.
\<close>

theorem once_guard:
  assumes "then_member (shape_of x) = Some (ThenFn acts)"
    and "enclosing_done st env"
  shows
   "fst (promiseResolutionProcedure st p x resolve reject env) =
      (let c = length (called st);
           s1 = script_effect (fst (new_flag st)) acts c p resolve reject env
       in case first_call acts of
            Some call \<Rightarrow> s1
          | None \<Rightarrow>
              (case thrown acts of
                 None \<Rightarrow> s1
               | Some e \<Rightarrow> fst (call_settler (set_flag s1 c) reject e))) \<and>
    (\<forall>s c block. c < length (called s) \<and> enclosing_done s env \<longrightarrow>
       run_task s (Later_guarded block c p resolve reject env) =
         script_effect s block c p resolve reject env \<and>
       fst (then_call_guarded s block c p resolve reject env) =
         script_effect s block c p resolve reject env) \<and>
    (\<forall>s c block. c < length (called s) \<and> (called s ! c \<or> first_call block \<noteq> None) \<longrightarrow>
       c < length (called (script_effect s block c p resolve reject env)) \<and>
       called (script_effect s block c p resolve reject env) ! c) \<and>
    (\<forall>s c n. c < length (called s) \<and> called s ! c \<longrightarrow>
       c < length (called (run n s)) \<and> called (run n s) ! c) \<and>
    (\<forall>s n. enclosing_done s env \<longrightarrow> enclosing_done (run n s) env) \<and>
    (\<forall>s c y r e. called s ! c \<longrightarrow>
       resolvePromise s c p resolve reject env y = s \<and>
       rejectPromise s c reject r = s \<and>
       catch_block s c reject e = s) \<and>
    (\<forall>s c y r. \<not> called s ! c \<longrightarrow>
       resolvePromise s c p resolve reject env y =
         fst (promiseResolutionProcedure (set_flag s c) p y resolve reject env) \<and>
       rejectPromise s c reject r = fst (call_settler (set_flag s c) reject r)) \<and>
    (\<forall>s c. c < length (called s) \<and> enclosing_done s env \<longrightarrow>
       enclosing_done (set_flag s c) ((c, p, resolve, reject) # env)) \<and>
    (\<forall>s c n v rest. enclosing_done s env \<longrightarrow>
       then_call_guarded s (CallOuterFirst n v # rest) c p resolve reject env =
         then_call_guarded s rest c p resolve reject env \<and>
       then_call_guarded s (CallOuterSecond n v # rest) c p resolve reject env =
         then_call_guarded s rest c p resolve reject env) \<and>
    (\<forall>before r after n.
       first_call acts = Some (before, CallSecond r, after) \<and> reject = Reject_of p \<and>
       p < length (heap st) \<and> status (heap st ! p) = STATUS_PENDING \<longrightarrow>
       settlement (run n (fst (promiseResolutionProcedure st p x resolve reject env))) p =
         (STATUS_REJECTED, pvalue (heap st ! p), r)) \<and>
    (\<forall>before y after n.
       first_call acts = Some (before, CallFirst y, after) \<and>
       (shape_of y = Primitive \<or> then_member (shape_of y) = Some ThenNone) \<and>
       resolve = Resolve_of p \<and>
       p < length (heap st) \<and> status (heap st ! p) = STATUS_PENDING \<longrightarrow>
       settlement (run n (fst (promiseResolutionProcedure st p x resolve reject env))) p =
         (STATUS_FULFILLED, y, reason (heap st ! p)))"
proof -
  have c1: "fst (promiseResolutionProcedure st p x resolve reject env) =
      (let c = length (called st);
           s1 = script_effect (fst (new_flag st)) acts c p resolve reject env
       in case first_call acts of
            Some call \<Rightarrow> s1
          | None \<Rightarrow>
              (case thrown acts of
                 None \<Rightarrow> s1
               | Some e \<Rightarrow> fst (call_settler (set_flag s1 c) reject e)))"
    by (rule procedure_script_effect[OF assms])
  have c2: "\<forall>s c block. c < length (called s) \<and> enclosing_done s env \<longrightarrow>
       run_task s (Later_guarded block c p resolve reject env) =
         script_effect s block c p resolve reject env \<and>
       fst (then_call_guarded s block c p resolve reject env) =
         script_effect s block c p resolve reject env"
    by (simp add: guarded_script_effect)
  have c3: "\<forall>s c block. c < length (called s) \<and> (called s ! c \<or> first_call block \<noteq> None) \<longrightarrow>
       c < length (called (script_effect s block c p resolve reject env)) \<and>
       called (script_effect s block c p resolve reject env) ! c"
    using script_effect_flag by blast
  have c4: "\<forall>s c n. c < length (called s) \<and> called s ! c \<longrightarrow>
       c < length (called (run n s)) \<and> called (run n s) ! c"
    using flags_keptD[OF flags_kept_procedure(6)] by blast
  have c5: "\<forall>s n. enclosing_done s env \<longrightarrow> enclosing_done (run n s) env"
    using enclosing_done_kept[OF flags_kept_procedure(6)] by blast
  have c6: "\<forall>s c y r e. called s ! c \<longrightarrow>
       resolvePromise s c p resolve reject env y = s \<and>
       rejectPromise s c reject r = s \<and>
       catch_block s c reject e = s"
    by (simp add: resolvePromise_done rejectPromise_done catch_block_done)
  have c7: "\<forall>s c y r. \<not> called s ! c \<longrightarrow>
       resolvePromise s c p resolve reject env y =
         fst (promiseResolutionProcedure (set_flag s c) p y resolve reject env) \<and>
       rejectPromise s c reject r = fst (call_settler (set_flag s c) reject r)"
    by (simp add: resolvePromise.simps rejectPromise_def)
  have c8: "\<forall>s c. c < length (called s) \<and> enclosing_done s env \<longrightarrow>
       enclosing_done (set_flag s c) ((c, p, resolve, reject) # env)"
    using enclosing_done_nested by blast
  have c9: "\<forall>s c n v rest. enclosing_done s env \<longrightarrow>
       then_call_guarded s (CallOuterFirst n v # rest) c p resolve reject env =
         then_call_guarded s rest c p resolve reject env \<and>
       then_call_guarded s (CallOuterSecond n v # rest) c p resolve reject env =
         then_call_guarded s rest c p resolve reject env"
    using outer_calls_ignored by blast
  have c10: "\<forall>before r after n.
       first_call acts = Some (before, CallSecond r, after) \<and> reject = Reject_of p \<and>
       p < length (heap st) \<and> status (heap st ! p) = STATUS_PENDING \<longrightarrow>
       settlement (run n (fst (promiseResolutionProcedure st p x resolve reject env))) p =
         (STATUS_REJECTED, pvalue (heap st ! p), r)"
    using first_call_settles(1)[OF assms] by blast
  have c11: "\<forall>before y after n.
       first_call acts = Some (before, CallFirst y, after) \<and>
       (shape_of y = Primitive \<or> then_member (shape_of y) = Some ThenNone) \<and>
       resolve = Resolve_of p \<and>
       p < length (heap st) \<and> status (heap st ! p) = STATUS_PENDING \<longrightarrow>
       settlement (run n (fst (promiseResolutionProcedure st p x resolve reject env))) p =
         (STATUS_FULFILLED, y, reason (heap st ! p))"
    using first_call_settles(2)[OF assms] by blast
  show ?thesis
    by (intro conjI c1 c2 c3 c4 c5 c6 c7 c8 c9 c10 c11)
qed

theorem once_guard_witness:
  "then_member (shape_of late_first) =
     Some (ThenFn [Later [CallFirst (VNum 1)], Later [CallSecond (VStr ''r'')]]) \<and>
   enclosing_done pending_example [] \<and>
   settlement (run 2 (fst (promiseResolutionProcedure pending_example 0 late_first
       (Resolve_of 0) (Reject_of 0) []))) 0 = (STATUS_FULFILLED, VNum 1, VNull) \<and>
   settlement (fst (promiseResolutionProcedure pending_example 0 reentrant
       (Resolve_of 0) (Reject_of 0) [])) 0 = (STATUS_FULFILLED, VNum 1, VNull) \<and>
   0 < length (heap pending_example) \<and> status (heap pending_example ! 0) = STATUS_PENDING \<and>
   first_call [Later [CallSecond (VStr ''r'')], CallFirst (VNum 1), Throw (VStr ''e'')] =
     Some ([Later [CallSecond (VStr ''r'')]], CallFirst (VNum 1), [Throw (VStr ''e'')]) \<and>
   shape_of (VNum 1) = Primitive \<and>
   settlement (run 3 (fst (promiseResolutionProcedure pending_example 0
       (VObj (ThenFn [Later [CallSecond (VStr ''r'')], CallFirst (VNum 1), Throw (VStr ''e'')]))
       (Resolve_of 0) (Reject_of 0) []))) 0 = (STATUS_FULFILLED, VNum 1, VNull) \<and>
   first_call [CallSecond (VStr ''r''), CallFirst (VNum 1), CallSecond (VStr ''s'')] =
     Some ([], CallSecond (VStr ''r''), [CallFirst (VNum 1), CallSecond (VStr ''s'')]) \<and>
   settlement (run 3 (fst (promiseResolutionProcedure pending_example 0
       (VFunc (ThenFn [CallSecond (VStr ''r''), CallFirst (VNum 1), CallSecond (VStr ''s'')]))
       (Resolve_of 0) (Reject_of 0) []))) 0 = (STATUS_REJECTED, VNull, VStr ''r'') \<and>
   enclosing_done (set_flag (fst (new_flag pending_example)) 0)
     [(0, 0, Resolve_of 0, Reject_of 0)] \<and>
   settlement (run 3 (fst (promiseResolutionProcedure
       (set_flag (fst (new_flag pending_example)) 0) 0
       (VObj (ThenFn [CallOuterFirst 0 (VNum 2), CallFirst (VNum 1)]))
       (Resolve_of 0) (Reject_of 0) [(0, 0, Resolve_of 0, Reject_of 0)]))) 0 =
     (STATUS_FULFILLED, VNum 1, VNull)"
proof -
  note ev = examples_eq new_flag_def set_flag_def settlement_def
    promiseResolutionProcedure.simps resolvePromise.simps rejectPromise_def catch_block_def
    resolve_cap_def reject_cap_def script_effect_def enclosing_done_def turn_def
    setTimeout_def Let_def eval_nat_numeral
  have a: "settlement (run 2 (fst (promiseResolutionProcedure pending_example 0 late_first
       (Resolve_of 0) (Reject_of 0) []))) 0 = (STATUS_FULFILLED, VNum 1, VNull)"
    using once_guard[where x = late_first
      and acts = "[Later [CallFirst (VNum 1)], Later [CallSecond (VStr ''r'')]]"
      and st = pending_example and p = 0 and resolve = "Resolve_of 0" and reject = "Reject_of 0"
      and env = "[]", THEN conjunct1]
    by (simp add: late_first_def ev)
  have b: "settlement (fst (promiseResolutionProcedure pending_example 0 reentrant
       (Resolve_of 0) (Reject_of 0) [])) 0 = (STATUS_FULFILLED, VNum 1, VNull)"
    using once_guard[where x = reentrant
      and acts = "[CallFirst (VObj (ThenFn
         [CallOuterSecond 0 (VStr ''late''), CallFirst (VNum 1)]))]"
      and st = pending_example and p = 0 and resolve = "Resolve_of 0" and reject = "Reject_of 0"
      and env = "[]", THEN conjunct1]
    by (simp add: reentrant_def ev)
  have "\<forall>before y after n.
       first_call [Later [CallSecond (VStr ''r'')], CallFirst (VNum 1), Throw (VStr ''e'')] =
         Some (before, CallFirst y, after) \<and>
       (shape_of y = Primitive \<or> then_member (shape_of y) = Some ThenNone) \<and>
       Resolve_of 0 = Resolve_of 0 \<and>
       0 < length (heap pending_example) \<and> status (heap pending_example ! 0) = STATUS_PENDING \<longrightarrow>
       settlement (run n (fst (promiseResolutionProcedure pending_example 0
          (VObj (ThenFn [Later [CallSecond (VStr ''r'')], CallFirst (VNum 1), Throw (VStr ''e'')]))
          (Resolve_of 0) (Reject_of 0) []))) 0 =
         (STATUS_FULFILLED, y, reason (heap pending_example ! 0))"
    using once_guard[where
        x = "VObj (ThenFn [Later [CallSecond (VStr ''r'')], CallFirst (VNum 1), Throw (VStr ''e'')])"
      and acts = "[Later [CallSecond (VStr ''r'')], CallFirst (VNum 1), Throw (VStr ''e'')]"
      and st = pending_example and p = 0 and resolve = "Resolve_of 0" and reject = "Reject_of 0"
      and env = "[]", THEN conjunct2, THEN conjunct2, THEN conjunct2, THEN conjunct2, THEN conjunct2, THEN conjunct2, THEN conjunct2, THEN conjunct2, THEN conjunct2, THEN conjunct2]
    by (simp add: enclosing_done_def)
  then have c: "settlement (run 3 (fst (promiseResolutionProcedure pending_example 0
       (VObj (ThenFn [Later [CallSecond (VStr ''r'')], CallFirst (VNum 1), Throw (VStr ''e'')]))
       (Resolve_of 0) (Reject_of 0) []))) 0 = (STATUS_FULFILLED, VNum 1, VNull)"
    by (simp add: examples_eq)
  have "\<forall>before r after n.
       first_call [CallSecond (VStr ''r''), CallFirst (VNum 1), CallSecond (VStr ''s'')] =
         Some (before, CallSecond r, after) \<and> Reject_of 0 = Reject_of 0 \<and>
       0 < length (heap pending_example) \<and> status (heap pending_example ! 0) = STATUS_PENDING \<longrightarrow>
       settlement (run n (fst (promiseResolutionProcedure pending_example 0
          (VFunc (ThenFn [CallSecond (VStr ''r''), CallFirst (VNum 1), CallSecond (VStr ''s'')]))
          (Resolve_of 0) (Reject_of 0) []))) 0 =
         (STATUS_REJECTED, pvalue (heap pending_example ! 0), r)"
    using once_guard[where
        x = "VFunc (ThenFn [CallSecond (VStr ''r''), CallFirst (VNum 1), CallSecond (VStr ''s'')])"
      and acts = "[CallSecond (VStr ''r''), CallFirst (VNum 1), CallSecond (VStr ''s'')]"
      and st = pending_example and p = 0 and resolve = "Resolve_of 0" and reject = "Reject_of 0"
      and env = "[]", THEN conjunct2, THEN conjunct2, THEN conjunct2, THEN conjunct2, THEN conjunct2, THEN conjunct2, THEN conjunct2, THEN conjunct2, THEN conjunct2, THEN conjunct1]
    by (simp add: enclosing_done_def)
  then have d: "settlement (run 3 (fst (promiseResolutionProcedure pending_example 0
       (VFunc (ThenFn [CallSecond (VStr ''r''), CallFirst (VNum 1), CallSecond (VStr ''s'')]))
       (Resolve_of 0) (Reject_of 0) []))) 0 = (STATUS_REJECTED, VNull, VStr ''r'')"
    by (simp add: examples_eq)
  have en: "enclosing_done (set_flag (fst (new_flag pending_example)) 0)
     [(0, 0, Resolve_of 0, Reject_of 0)]"
    by (simp add: ev)
  have "\<forall>before y after n.
       first_call [CallOuterFirst 0 (VNum 2), CallFirst (VNum 1)] =
         Some (before, CallFirst y, after) \<and>
       (shape_of y = Primitive \<or> then_member (shape_of y) = Some ThenNone) \<and>
       Resolve_of 0 = Resolve_of 0 \<and>
       0 < length (heap (set_flag (fst (new_flag pending_example)) 0)) \<and>
       status (heap (set_flag (fst (new_flag pending_example)) 0) ! 0) = STATUS_PENDING \<longrightarrow>
       settlement (run n (fst (promiseResolutionProcedure
          (set_flag (fst (new_flag pending_example)) 0) 0
          (VObj (ThenFn [CallOuterFirst 0 (VNum 2), CallFirst (VNum 1)]))
          (Resolve_of 0) (Reject_of 0) [(0, 0, Resolve_of 0, Reject_of 0)]))) 0 =
         (STATUS_FULFILLED, y, reason (heap (set_flag (fst (new_flag pending_example)) 0) ! 0))"
    using once_guard[where
        x = "VObj (ThenFn [CallOuterFirst 0 (VNum 2), CallFirst (VNum 1)])"
      and acts = "[CallOuterFirst 0 (VNum 2), CallFirst (VNum 1)]"
      and st = "set_flag (fst (new_flag pending_example)) 0" and p = 0
      and resolve = "Resolve_of 0" and reject = "Reject_of 0"
      and env = "[(0, 0, Resolve_of 0, Reject_of 0)]", THEN conjunct2, THEN conjunct2, THEN conjunct2, THEN conjunct2, THEN conjunct2, THEN conjunct2, THEN conjunct2, THEN conjunct2, THEN conjunct2, THEN conjunct2] en
    by simp
  then have e: "settlement (run 3 (fst (promiseResolutionProcedure
       (set_flag (fst (new_flag pending_example)) 0) 0
       (VObj (ThenFn [CallOuterFirst 0 (VNum 2), CallFirst (VNum 1)]))
       (Resolve_of 0) (Reject_of 0) [(0, 0, Resolve_of 0, Reject_of 0)]))) 0 =
     (STATUS_FULFILLED, VNum 1, VNull)"
    by (simp add: examples_eq new_flag_def set_flag_def)
  show ?thesis
    by (intro conjI a b c d e en) (simp_all add: late_first_def examples_eq enclosing_done_def)
qed
section \<open>\<^verbatim>\<open>race\<close> and its first element\<close>

lemma race_cons:
  assumes "isIterable v" and "elements st v = x # xs"
  shows "promise_race st v =
    (case invoke_then (fst (new_promise st)) x (Race_value (length (heap st)))
            (Race_reason (length (heap st))) of
       Some (st2, None) \<Rightarrow> (st2, VPromise (length (heap st)))
     | Some (st2, Some e) \<Rightarrow> (reject_cap st2 (length (heap st)) e, VPromise (length (heap st)))
     | None \<Rightarrow> (fst (resolve_cap (fst (new_promise st)) (length (heap st)) x),
                 VPromise (length (heap st))))"
  using assms by (simp add: promise_race_def new_promise_def split: option.splits)

lemma fresh_settlement:
  "settlement (fst (new_promise st)) (length (heap st)) = (STATUS_PENDING, VNull, VNull)"
  by (simp add: new_promise_def settlement_def)

lemma not_Instance:
  "shape_of x = Primitive \<or> then_member (shape_of x) = Some tp \<Longrightarrow> shape_of x \<noteq> Instance q"
  by (cases "shape_of x") auto

lemma procedure_keeps_settled:
  assumes "p < length (heap s)" and "status (heap s ! p) \<noteq> STATUS_PENDING"
  shows "settlement (fst (promiseResolutionProcedure s d x resolve reject env)) p = settlement s p"
  by (rule keepsD[OF stable_procedure(1)[OF stableD(1)[OF stable_keeps]] assms])

lemma resolve_cap_plain_snd:
  "(\<And>q. shape_of v \<noteq> Instance q) \<Longrightarrow> snd (resolve_cap st p v) = VUndef"
  by (simp add: resolve_cap_plain)

lemma resolve_cap_length:
  "(\<And>q. shape_of v \<noteq> Instance q) \<Longrightarrow>
   length (heap (fst (resolve_cap st p v))) = length (heap st)"
  by (simp add: resolve_cap_plain invokeArrayFns_eq)

lemma run_race_value:
  assumes "p < length (heap s)" and "status (heap s ! p) = STATUS_PENDING"
    and "\<And>k. shape_of (pvalue (heap s ! q)) \<noteq> Instance k"
  shows "settlement (run_task s (Run_onFulfilled q d (Race_value p))) p =
    (STATUS_FULFILLED, pvalue (heap s ! q), reason (heap s ! p))"
proof -
  let ?w = "pvalue (heap s ! q)"
  let ?s1 = "fst (resolve_cap s p ?w)"
  have s1: "settlement ?s1 p = (STATUS_FULFILLED, ?w, reason (heap s ! p))"
    using assms by (intro resolve_cap_pending) simp_all
  then have "status (heap ?s1 ! p) \<noteq> STATUS_PENDING"
    by (simp add: settlement_def)
  moreover have "p < length (heap ?s1)"
    using assms by (simp add: resolve_cap_length)
  ultimately have "settlement (fst (promiseResolutionProcedure ?s1 d VUndef (Resolve_of d)
      (Reject_of d) [])) p = settlement ?s1 p"
    by (intro procedure_keeps_settled)
  then show ?thesis
    using s1 assms(3) by (simp add: split_beta resolve_cap_plain_snd)
qed

lemma run_race_reason:
  assumes "p < length (heap s)" and "status (heap s ! p) = STATUS_PENDING"
  shows "settlement (run_task s (Run_onRejected q d (Race_reason p))) p =
    (STATUS_REJECTED, pvalue (heap s ! p), reason (heap s ! q))"
proof -
  let ?r = "reason (heap s ! q)"
  let ?s1 = "reject_cap s p ?r"
  have s1: "settlement ?s1 p = (STATUS_REJECTED, pvalue (heap s ! p), ?r)"
    using assms by (intro reject_cap_pending) simp_all
  then have "status (heap ?s1 ! p) \<noteq> STATUS_PENDING"
    by (simp add: settlement_def)
  moreover have "p < length (heap ?s1)"
    using assms by (simp add: reject_cap_others)
  ultimately have "settlement (fst (promiseResolutionProcedure ?s1 d VUndef (Resolve_of d)
      (Reject_of d) [])) p = settlement ?s1 p"
    by (intro procedure_keeps_settled)
  then show ?thesis
    using s1 by simp
qed

lemma race_Instance:
  assumes "isIterable v" and "elements st v = VPromise q # xs"
  shows "fst (promise_race st v) =
    fst (then_method (fst (new_promise st)) q (Some (Race_value (length (heap st))))
          (Some (Race_reason (length (heap st)))))"
  by (simp add: race_cons[OF assms] invoke_then_cases)

lemma turn_single: "queue s = [t] \<Longrightarrow> turn s = run_task (s\<lparr>queue := []\<rparr>) t"
  by (simp add: turn_def)

lemma race_settled_source:
  assumes "isIterable v" and "elements st v = VPromise q # xs"
    and "q < length (heap st)" and "queue st = []"
  shows "status (heap st ! q) = STATUS_FULFILLED \<Longrightarrow>
         (\<And>k. shape_of (pvalue (heap st ! q)) \<noteq> Instance k) \<Longrightarrow>
         settlement (turn (fst (promise_race st v))) (length (heap st)) =
           (STATUS_FULFILLED, pvalue (heap st ! q), VNull)"
    and "status (heap st ! q) = STATUS_REJECTED \<Longrightarrow>
         settlement (turn (fst (promise_race st v))) (length (heap st)) =
           (STATUS_REJECTED, VNull, reason (heap st ! q))"
proof -
  let ?p = "length (heap st)"
  let ?s1 = "fst (new_promise st)"
  let ?s2 = "fst (promise_race st v)"
  have q1: "q < length (heap ?s1)" "heap ?s1 ! q = heap st ! q"
    using assms(3) by (simp_all add: new_promise_simps nth_append)
  have heap2: "heap ?s2 = heap st @
      [\<lparr>status = STATUS_PENDING, pvalue = VNull, reason = VNull,
        onFulfilledCbs = [], onRejectedCbs = []\<rparr>,
       \<lparr>status = STATUS_PENDING, pvalue = VNull, reason = VNull,
        onFulfilledCbs = [], onRejectedCbs = []\<rparr>]"
    if "status (heap st ! q) \<noteq> STATUS_PENDING"
    using that q1 by (simp add: race_Instance[OF assms(1,2)] then_method_settled new_promise_simps)
  have queue2: "queue ?s2 =
      (if status (heap st ! q) = STATUS_FULFILLED
       then [Run_onFulfilled q (Suc ?p) (Race_value ?p)]
       else if status (heap st ! q) = STATUS_REJECTED
       then [Run_onRejected q (Suc ?p) (Race_reason ?p)] else [])"
    using q1 assms(4)
    by (simp add: race_Instance[OF assms(1,2)] then_method_queue new_promise_simps)
  {
    assume f: "status (heap st ! q) = STATUS_FULFILLED"
      and w: "\<And>k. shape_of (pvalue (heap st ! q)) \<noteq> Instance k"
    let ?s3 = "?s2\<lparr>queue := []\<rparr>"
    have "settlement (run_task ?s3 (Run_onFulfilled q (Suc ?p) (Race_value ?p))) ?p =
      (STATUS_FULFILLED, pvalue (heap ?s3 ! q), reason (heap ?s3 ! ?p))"
      using f w assms(3) by (intro run_race_value) (simp_all add: heap2 nth_append)
    then show "settlement (turn ?s2) ?p = (STATUS_FULFILLED, pvalue (heap st ! q), VNull)"
      using f assms(3) by (simp add: turn_single queue2 heap2 nth_append)
  }
  {
    assume r: "status (heap st ! q) = STATUS_REJECTED"
    let ?s3 = "?s2\<lparr>queue := []\<rparr>"
    have "settlement (run_task ?s3 (Run_onRejected q (Suc ?p) (Race_reason ?p))) ?p =
      (STATUS_REJECTED, pvalue (heap ?s3 ! ?p), reason (heap ?s3 ! q))"
      using r assms(3) by (intro run_race_reason) (simp_all add: heap2 nth_append)
    then show "settlement (turn ?s2) ?p = (STATUS_REJECTED, VNull, reason (heap st ! q))"
      using r assms(3) by (simp add: turn_single queue2 heap2 nth_append)
  }
qed

lemma race_pending_source:
  assumes "isIterable v" and "elements st v = VPromise q # xs"
    and "q < length (heap st)" and "queue st = []"
    and "status (heap st ! q) = STATUS_PENDING"
  shows "onFulfilledCbs (heap st ! q) = [] \<Longrightarrow> (\<And>k. shape_of w \<noteq> Instance k) \<Longrightarrow>
         settlement (turn (fst (resolve_cap (fst (promise_race st v)) q w))) (length (heap st)) =
           (STATUS_FULFILLED, w, VNull)"
    and "onRejectedCbs (heap st ! q) = [] \<Longrightarrow>
         settlement (turn (reject_cap (fst (promise_race st v)) q r)) (length (heap st)) =
           (STATUS_REJECTED, VNull, r)"
proof -
  let ?p = "length (heap st)"
  let ?s1 = "fst (new_promise st)"
  let ?s2 = "fst (promise_race st v)"
  let ?fresh = "\<lparr>status = STATUS_PENDING, pvalue = VNull, reason = VNull,
        onFulfilledCbs = [], onRejectedCbs = []\<rparr>"
  have q1: "q < length (heap ?s1)" "heap ?s1 ! q = heap st ! q"
    using assms(3) by (simp_all add: new_promise_simps nth_append)
  have heap2: "heap ?s2 = (heap st)[q := (heap st ! q)
       \<lparr>onFulfilledCbs := onFulfilledCbs (heap st ! q) @
          [Schedule (Run_onFulfilled q (Suc ?p) (Race_value ?p))],
        onRejectedCbs := onRejectedCbs (heap st ! q) @
          [Schedule (Run_onRejected q (Suc ?p) (Race_reason ?p))]\<rparr>] @ [?fresh, ?fresh]"
    using q1 assms(3,5)
    by (simp add: race_Instance[OF assms(1,2)] then_method_pending new_promise_simps
        list_update_append)
  have queue2: "queue ?s2 = []"
    using q1 assms(4,5)
    by (simp add: race_Instance[OF assms(1,2)] then_method_queue new_promise_simps)
  {
    assume cbs: "onFulfilledCbs (heap st ! q) = []" and w: "\<And>k. shape_of w \<noteq> Instance k"
    let ?s3 = "fst (resolve_cap ?s2 q w)"
    have s3: "?s3 = ?s2\<lparr>heap := (heap ?s2)[q := (heap ?s2 ! q)\<lparr>status := STATUS_FULFILLED, pvalue := w\<rparr>],
         queue := [Run_onFulfilled q (Suc ?p) (Race_value ?p)]\<rparr>"
      using assms(3,5) cbs w
      by (simp add: resolve_cap_plain invokeArrayFns_eq heap2 queue2 nth_append)
    let ?s4 = "?s3\<lparr>queue := []\<rparr>"
    have "settlement (run_task ?s4 (Run_onFulfilled q (Suc ?p) (Race_value ?p))) ?p =
      (STATUS_FULFILLED, pvalue (heap ?s4 ! q), reason (heap ?s4 ! ?p))"
      using w assms(3) by (intro run_race_value) (simp_all add: s3 heap2 nth_append)
    then show "settlement (turn ?s3) ?p = (STATUS_FULFILLED, w, VNull)"
      using assms(3) by (simp add: turn_single s3 heap2 nth_append)
  }
  {
    assume cbs: "onRejectedCbs (heap st ! q) = []"
    let ?s3 = "reject_cap ?s2 q r"
    have s3: "?s3 = ?s2\<lparr>heap := (heap ?s2)[q := (heap ?s2 ! q)\<lparr>status := STATUS_REJECTED, reason := r\<rparr>],
         queue := [Run_onRejected q (Suc ?p) (Race_reason ?p)]\<rparr>"
      using assms(3,5) cbs
      by (simp add: reject_cap_def invokeArrayFns_eq heap2 queue2 nth_append)
    let ?s4 = "?s3\<lparr>queue := []\<rparr>"
    have "settlement (run_task ?s4 (Run_onRejected q (Suc ?p) (Race_reason ?p))) ?p =
      (STATUS_REJECTED, pvalue (heap ?s4 ! ?p), reason (heap ?s4 ! q))"
      using assms(3) by (intro run_race_reason) (simp_all add: s3 heap2 nth_append)
    then show "settlement (turn ?s3) ?p = (STATUS_REJECTED, VNull, r)"
      using assms(3) by (simp add: turn_single s3 heap2 nth_append)
  }
qed

lemma race_foreign:
  assumes "isIterable v" and "elements st v = x # xs"
    and "then_member (shape_of x) = Some (ThenFn acts)"
  shows "fst (promise_race st v) =
    (case snd (then_call_plain (fst (new_promise st)) acts (Race_value (length (heap st)))
                (Race_reason (length (heap st)))) of
       None \<Rightarrow> fst (then_call_plain (fst (new_promise st)) acts (Race_value (length (heap st)))
                (Race_reason (length (heap st))))
     | Some e \<Rightarrow> reject_cap (fst (then_call_plain (fst (new_promise st)) acts
                (Race_value (length (heap st))) (Race_reason (length (heap st)))))
                (length (heap st)) e)"
  by (simp add: race_cons[OF assms(1,2)] invoke_then_cases(4)[OF assms(3)] split_beta
      split: option.splits)

lemma plain_keeps_settled:
  assumes "p < length (heap s)" and "status (heap s ! p) \<noteq> STATUS_PENDING"
  shows "settlement (fst (then_call_plain s acts f g)) p = settlement s p"
    and "settlement (reject_cap (fst (then_call_plain s acts f g)) p e) p = settlement s p"
proof -
  have k: "keeps s (fst (then_call_plain s acts f g))"
    by (rule stable_then_call_plain[OF stable_keeps])
  show "settlement (fst (then_call_plain s acts f g)) p = settlement s p"
    by (rule keepsD[OF k assms])
  show "settlement (reject_cap (fst (then_call_plain s acts f g)) p e) p = settlement s p"
    by (rule keepsD[OF keeps_trans[OF k keeps_reject_cap] assms])
qed

lemma race_foreign_first:
  assumes "isIterable v" and "elements st v = x # xs"
  shows "then_member (shape_of x) = Some (ThenFn (CallFirst w # acts)) \<Longrightarrow>
         (\<And>k. shape_of w \<noteq> Instance k) \<Longrightarrow>
         settlement (fst (promise_race st v)) (length (heap st)) = (STATUS_FULFILLED, w, VNull)"
    and "then_member (shape_of x) = Some (ThenFn (CallSecond r # acts)) \<Longrightarrow>
         settlement (fst (promise_race st v)) (length (heap st)) = (STATUS_REJECTED, VNull, r)"
    and "then_member (shape_of x) = Some (ThenFn (Throw e # acts)) \<Longrightarrow>
         settlement (fst (promise_race st v)) (length (heap st)) = (STATUS_REJECTED, VNull, e)"
    and "then_member (shape_of x) = Some (ThenGetterThrows e) \<Longrightarrow>
         settlement (fst (promise_race st v)) (length (heap st)) = (STATUS_REJECTED, VNull, e)"
proof -
  let ?p = "length (heap st)"
  let ?s1 = "fst (new_promise st)"
  have fresh: "?p < length (heap ?s1)" "status (heap ?s1 ! ?p) = STATUS_PENDING"
    "pvalue (heap ?s1 ! ?p) = VNull" "reason (heap ?s1 ! ?p) = VNull"
    by (simp_all add: new_promise_simps)
  {
    assume x: "then_member (shape_of x) = Some (ThenFn (CallFirst w # acts))"
      and w: "\<And>k. shape_of w \<noteq> Instance k"
    let ?s2 = "fst (resolve_cap ?s1 ?p w)"
    have s2: "settlement ?s2 ?p = (STATUS_FULFILLED, w, VNull)"
      using resolve_cap_pending[OF fresh(1,2) w] fresh by simp
    then have set: "?p < length (heap ?s2)" "status (heap ?s2 ! ?p) \<noteq> STATUS_PENDING"
      using fresh(1) w by (simp_all add: settlement_def resolve_cap_length)
    show "settlement (fst (promise_race st v)) ?p = (STATUS_FULFILLED, w, VNull)"
      using plain_keeps_settled[OF set] s2
      by (simp add: race_foreign[OF assms x] split_beta split: option.splits)
  }
  {
    assume x: "then_member (shape_of x) = Some (ThenFn (CallSecond r # acts))"
    let ?s2 = "reject_cap ?s1 ?p r"
    have s2: "settlement ?s2 ?p = (STATUS_REJECTED, VNull, r)"
      using reject_cap_pending[OF fresh(1,2)] fresh by simp
    then have set: "?p < length (heap ?s2)" "status (heap ?s2 ! ?p) \<noteq> STATUS_PENDING"
      using fresh(1) by (simp_all add: settlement_def reject_cap_others)
    show "settlement (fst (promise_race st v)) ?p = (STATUS_REJECTED, VNull, r)"
      using plain_keeps_settled[OF set] s2
      by (simp add: race_foreign[OF assms x] split_beta split: option.splits)
  }
  {
    assume x: "then_member (shape_of x) = Some (ThenFn (Throw e # acts))"
    show "settlement (fst (promise_race st v)) ?p = (STATUS_REJECTED, VNull, e)"
      using reject_cap_pending[OF fresh(1,2)] fresh
      by (simp add: race_foreign[OF assms x])
  }
  {
    assume x: "then_member (shape_of x) = Some (ThenGetterThrows e)"
    show "settlement (fst (promise_race st v)) ?p = (STATUS_REJECTED, VNull, e)"
      using reject_cap_pending[OF fresh(1,2)] fresh
      by (simp add: race_cons[OF assms] invoke_then_cases(3)[OF x])
  }
qed

lemma elements_read: "elements st v = x # xs \<Longrightarrow> x \<noteq> VEmpty"
  by (cases v) (auto simp: read_slot_def split: if_splits)

text \<open>
  What \<^verbatim>\<open>race\<close> does in the cases where the first element \<open>x\<close> reports once.  \<^verbatim>\<open>race\<close> of
  an iterable with first element \<open>x\<close> does what \<^verbatim>\<open>race\<close> of the one-element array of \<open>x\<close>
  does, so no later element has any effect, and returns a new promise.  If \<open>x\<close> is not a
  thenable (a primitive, or an object or function without a callable \<^verbatim>\<open>then\<close>), that
  promise is fulfilled with \<open>x\<close> at once.  If \<open>x\<close> is a promise of this class that is
  already fulfilled or rejected, the new promise has the same value or reason after the
  next turn of the event loop; if \<open>x\<close> is still pending (with no other callback
  registered), the same holds after the turn that follows its settlement.  If \<open>x\<close> is a
  foreign thenable whose \<^verbatim>\<open>then\<close> starts with a call of its first argument with a value
  that is not a promise of this class, or with a call of its second argument, or with a
  \<^verbatim>\<open>throw\<close>, that settles the new promise.  (Timer functions that wait from before are
  assumed absent, and a value of a fulfilled promise is assumed not to be a promise of
  this class.)
\<close>

lemma race_first_element_cases:
  assumes "isIterable v" and "elements st v = x # xs"
  shows "promise_race st v = promise_race st (VArr [x]) \<and>
    snd (promise_race st v) = VPromise (length (heap st)) \<and>
    (shape_of x = Primitive \<or> then_member (shape_of x) = Some ThenNone \<longrightarrow>
       settlement (fst (promise_race st v)) (length (heap st)) = (STATUS_FULFILLED, x, VNull)) \<and>
    (x = VPromise q \<and> q < length (heap st) \<and> queue st = [] \<and>
     status (heap st ! q) = STATUS_FULFILLED \<and>
     (\<forall>k. shape_of (pvalue (heap st ! q)) \<noteq> Instance k) \<longrightarrow>
       settlement (turn (fst (promise_race st v))) (length (heap st)) =
         (STATUS_FULFILLED, pvalue (heap st ! q), VNull)) \<and>
    (x = VPromise q \<and> q < length (heap st) \<and> queue st = [] \<and>
     status (heap st ! q) = STATUS_REJECTED \<longrightarrow>
       settlement (turn (fst (promise_race st v))) (length (heap st)) =
         (STATUS_REJECTED, VNull, reason (heap st ! q))) \<and>
    (x = VPromise q \<and> q < length (heap st) \<and> queue st = [] \<and>
     status (heap st ! q) = STATUS_PENDING \<and> onFulfilledCbs (heap st ! q) = [] \<and>
     (\<forall>k. shape_of w \<noteq> Instance k) \<longrightarrow>
       settlement (turn (fst (resolve_cap (fst (promise_race st v)) q w))) (length (heap st)) =
         (STATUS_FULFILLED, w, VNull)) \<and>
    (x = VPromise q \<and> q < length (heap st) \<and> queue st = [] \<and>
     status (heap st ! q) = STATUS_PENDING \<and> onRejectedCbs (heap st ! q) = [] \<longrightarrow>
       settlement (turn (reject_cap (fst (promise_race st v)) q r)) (length (heap st)) =
         (STATUS_REJECTED, VNull, r)) \<and>
    (then_member (shape_of x) = Some (ThenFn (CallFirst w # acts)) \<and>
     (\<forall>k. shape_of w \<noteq> Instance k) \<longrightarrow>
       settlement (fst (promise_race st v)) (length (heap st)) = (STATUS_FULFILLED, w, VNull)) \<and>
    (then_member (shape_of x) = Some (ThenFn (CallSecond r # acts)) \<longrightarrow>
       settlement (fst (promise_race st v)) (length (heap st)) = (STATUS_REJECTED, VNull, r)) \<and>
    (then_member (shape_of x) = Some (ThenFn (Throw r # acts)) \<or>
     then_member (shape_of x) = Some (ThenGetterThrows r) \<longrightarrow>
       settlement (fst (promise_race st v)) (length (heap st)) = (STATUS_REJECTED, VNull, r))"
proof -
  let ?p = "length (heap st)"
  let ?s1 = "fst (new_promise st)"
  note rc = race_cons[OF assms]
  have "read_slot x = x"
    using elements_read[OF assms(2)] by (simp add: read_slot_def)
  then have one: "promise_race st v = promise_race st (VArr [x])"
    by (simp add: rc race_cons[of "VArr [x]" st x "[]"])
  have two: "snd (promise_race st v) = VPromise ?p"
    by (simp add: rc split: option.splits prod.splits)
  have plain: "settlement (fst (promise_race st v)) ?p = (STATUS_FULFILLED, x, VNull)"
    if "shape_of x = Primitive \<or> then_member (shape_of x) = Some ThenNone"
  proof -
    from that have none: "invoke_then ?s1 x (Race_value ?p) (Race_reason ?p) = None"
      by (auto simp: invoke_then_cases)
    have "settlement (fst (resolve_cap ?s1 ?p x)) ?p =
        (STATUS_FULFILLED, x, reason (heap ?s1 ! ?p))"
      using that not_Instance[of x ThenNone]
      by (intro resolve_cap_pending) (auto simp: new_promise_simps)
    then show ?thesis by (simp add: rc none new_promise_simps)
  qed
  have src: "settlement (turn (fst (promise_race st v))) ?p =
         (STATUS_FULFILLED, pvalue (heap st ! q), VNull)"
    if "x = VPromise q" "q < ?p" "queue st = []" "status (heap st ! q) = STATUS_FULFILLED"
      "\<forall>k. shape_of (pvalue (heap st ! q)) \<noteq> Instance k"
    using race_settled_source(1)[OF assms(1) _ that(2,3,4)] assms(2) that(1,5) by simp
  have srcr: "settlement (turn (fst (promise_race st v))) ?p =
         (STATUS_REJECTED, VNull, reason (heap st ! q))"
    if "x = VPromise q" "q < ?p" "queue st = []" "status (heap st ! q) = STATUS_REJECTED"
    using race_settled_source(2)[OF assms(1) _ that(2,3,4)] assms(2) that(1) by simp
  have pend: "settlement (turn (fst (resolve_cap (fst (promise_race st v)) q w))) ?p =
         (STATUS_FULFILLED, w, VNull)"
    if "x = VPromise q" "q < ?p" "queue st = []" "status (heap st ! q) = STATUS_PENDING"
      "onFulfilledCbs (heap st ! q) = []" "\<forall>k. shape_of w \<noteq> Instance k"
    using race_pending_source(1)[OF assms(1) _ that(2,3,4,5)] assms(2) that(1,6) by simp
  have pendr: "settlement (turn (reject_cap (fst (promise_race st v)) q r)) ?p =
         (STATUS_REJECTED, VNull, r)"
    if "x = VPromise q" "q < ?p" "queue st = []" "status (heap st ! q) = STATUS_PENDING"
      "onRejectedCbs (heap st ! q) = []"
    using race_pending_source(2)[OF assms(1) _ that(2,3,4,5)] assms(2) that(1) by simp
  have f1: "settlement (fst (promise_race st v)) ?p = (STATUS_FULFILLED, w, VNull)"
    if "then_member (shape_of x) = Some (ThenFn (CallFirst w # acts))"
      "\<forall>k. shape_of w \<noteq> Instance k"
    using race_foreign_first(1)[OF assms that(1)] that(2) by simp
  note f2 = race_foreign_first(2)[OF assms, of r acts]
  note f3 = race_foreign_first(3)[OF assms, of r acts]
  note f4 = race_foreign_first(4)[OF assms, of r]
  have c3: "shape_of x = Primitive \<or> then_member (shape_of x) = Some ThenNone \<longrightarrow>
       settlement (fst (promise_race st v)) (length (heap st)) = (STATUS_FULFILLED, x, VNull)"
    using plain by blast
  have c4: "x = VPromise q \<and> q < length (heap st) \<and> queue st = [] \<and>
     status (heap st ! q) = STATUS_FULFILLED \<and>
     (\<forall>k. shape_of (pvalue (heap st ! q)) \<noteq> Instance k) \<longrightarrow>
       settlement (turn (fst (promise_race st v))) (length (heap st)) =
         (STATUS_FULFILLED, pvalue (heap st ! q), VNull)"
    using src by blast
  have c5: "x = VPromise q \<and> q < length (heap st) \<and> queue st = [] \<and>
     status (heap st ! q) = STATUS_REJECTED \<longrightarrow>
       settlement (turn (fst (promise_race st v))) (length (heap st)) =
         (STATUS_REJECTED, VNull, reason (heap st ! q))"
    using srcr by blast
  have c6: "x = VPromise q \<and> q < length (heap st) \<and> queue st = [] \<and>
     status (heap st ! q) = STATUS_PENDING \<and> onFulfilledCbs (heap st ! q) = [] \<and>
     (\<forall>k. shape_of w \<noteq> Instance k) \<longrightarrow>
       settlement (turn (fst (resolve_cap (fst (promise_race st v)) q w))) (length (heap st)) =
         (STATUS_FULFILLED, w, VNull)"
    using pend by blast
  have c7: "x = VPromise q \<and> q < length (heap st) \<and> queue st = [] \<and>
     status (heap st ! q) = STATUS_PENDING \<and> onRejectedCbs (heap st ! q) = [] \<longrightarrow>
       settlement (turn (reject_cap (fst (promise_race st v)) q r)) (length (heap st)) =
         (STATUS_REJECTED, VNull, r)"
    using pendr by blast
  have c8: "then_member (shape_of x) = Some (ThenFn (CallFirst w # acts)) \<and>
     (\<forall>k. shape_of w \<noteq> Instance k) \<longrightarrow>
       settlement (fst (promise_race st v)) (length (heap st)) = (STATUS_FULFILLED, w, VNull)"
    using f1 by blast
  have c9: "then_member (shape_of x) = Some (ThenFn (CallSecond r # acts)) \<longrightarrow>
       settlement (fst (promise_race st v)) (length (heap st)) = (STATUS_REJECTED, VNull, r)"
    using f2 by blast
  have c10: "then_member (shape_of x) = Some (ThenFn (Throw r # acts)) \<or>
     then_member (shape_of x) = Some (ThenGetterThrows r) \<longrightarrow>
       settlement (fst (promise_race st v)) (length (heap st)) = (STATUS_REJECTED, VNull, r)"
    using f3 f4 by blast
  show ?thesis
    by (intro conjI one two c3 c4 c5 c6 c7 c8 c9 c10)
qed

text \<open>
  C6.  \<^verbatim>\<open>race([x])\<close>, where \<^verbatim>\<open>x\<close> is \<^verbatim>\<open>{ then(res, rej) { res(q); rej('r') } }\<close> and \<^verbatim>\<open>q\<close>
  (number 0) is a pending promise: when \<^verbatim>\<open>race\<close> returns, the new promise (number 1) is
  rejected with \<^verbatim>\<open>'r'\<close>, the argument of the second call, while \<^verbatim>\<open>q\<close> is still pending;
  and it stays rejected after \<^verbatim>\<open>q\<close> has been fulfilled with 7 and the timers have run.  The
  resolution procedure on the same \<^verbatim>\<open>x\<close>, with a new promise as its target, follows the
  first call: the target is pending as long as \<^verbatim>\<open>q\<close> is, and is fulfilled with 7 after \<^verbatim>\<open>q\<close>.
\<close>

theorem race_second_call_wins:
  "(let st = fst (promise_race pending_example (VArr [resolve_then_reject]));
        st' = run 2 (fst (resolve_cap st 0 (VNum 7)))
    in (snd (promise_race pending_example (VArr [resolve_then_reject])),
        status (heap st ! 0), settlement st 1, settlement st' 0, settlement st' 1)) =
   (VPromise 1, STATUS_PENDING, (STATUS_REJECTED, VNull, VStr ''r''),
    (STATUS_FULFILLED, VNum 7, VNull), (STATUS_REJECTED, VNull, VStr ''r'')) \<and>
   (let s0 = fst (new_promise pending_example);
        s1 = fst (promiseResolutionProcedure s0 1 resolve_then_reject
                    (Resolve_of 1) (Reject_of 1) []);
        s2 = run 2 (fst (resolve_cap s1 0 (VNum 7)))
    in (status (heap s1 ! 0), settlement s1 1, settlement s2 0, settlement s2 1)) =
   (STATUS_PENDING, (STATUS_PENDING, VNull, VNull),
    (STATUS_FULFILLED, VNum 7, VNull), (STATUS_FULFILLED, VNum 7, VNull))"
  by code_simp
section \<open>\<^verbatim>\<open>processRes\<close> and the order of the reports\<close>

lemma array_set_nth:
  "(array_set xs i v) ! i = v"
  "j \<noteq> i \<Longrightarrow> j < length xs \<Longrightarrow> (array_set xs i v) ! j = xs ! j"
  "length (array_set xs i v) = max (length xs) (Suc i)"
  by (auto simp: array_set_def nth_append)

lemma alls_resolve_cap: "alls (fst (resolve_cap s p v)) = alls s"
  by (cases "shape_of v")
    (simp_all add: resolve_cap_def split_beta then_method_simps invokeArrayFns_eq)

lemma collecting_step:
  assumes "collecting c n p r0 s m" and "i < n" and "m i = None"
  shows "collecting c n p r0 (processRes s c i v) (m(i \<mapsto> v))"
proof -
  let ?a = "alls s ! c"
  let ?a1 = "?a\<lparr>res := array_set (res ?a) i v, fulfilledCount := fulfilledCount ?a + 1\<rparr>"
  let ?s1 = "s\<lparr>alls := (alls s)[c := ?a1]\<rparr>"
  from assms(1) have c: "c < length (alls s)"
    and n: "\<And>s'. array_length s' (all_iterable ?a) = Some n"
    and t: "target ?a = p" and cnt: "fulfilledCount ?a = card (dom m)"
    and fin: "finite (dom m)" and sub: "dom m \<subseteq> {..<n}"
    and len: "length (res ?a) \<le> n"
    and vals: "\<And>j w. m j = Some w \<Longrightarrow> j < length (res ?a) \<and> res ?a ! j = w"
    and p: "p < length (heap s)"
    and pend: "card (dom m) < n \<Longrightarrow> settlement s p = (STATUS_PENDING, VNull, r0)"
    unfolding collecting_def by blast+
  have notin: "i \<notin> dom m" using assms(3) by auto
  have card: "card (insert i (dom m)) = Suc (card (dom m))"
    using fin notin by simp
  have "dom m \<subset> {..<n}" using sub assms(2) notin by auto
  then have less: "card (dom m) < n"
    using psubset_card_mono[of "{..<n}" "dom m"] by simp
  note pending = pend[OF less]
  have a1: "alls ?s1 ! c = ?a1" using c by simp
  have vals1: "j < length (res ?a1) \<and> res ?a1 ! j = w" if "(m(i \<mapsto> v)) j = Some w" for j w
  proof (cases "j = i")
    case True
    with that show ?thesis by (simp add: array_set_nth)
  next
    case False
    with that have "m j = Some w" by simp
    from vals[OF this] False show ?thesis by (auto simp: array_set_nth)
  qed
  have len1: "length (res ?a1) \<le> n"
    using len assms(2) by (simp add: array_set_nth)
  show ?thesis
  proof (cases "Suc (card (dom m)) = n")
    case True
    have eq: "processRes s c i v = fst (resolve_cap ?s1 p (VRes c))"
      using True n t cnt by (simp add: processRes_def Let_def)
    have "settlement (fst (resolve_cap ?s1 p (VRes c))) p =
        (STATUS_FULFILLED, VRes c, reason (heap ?s1 ! p))"
      using p pending by (intro resolve_cap_pending) (simp_all add: settlement_def)
    then have set: "settlement (processRes s c i v) p = (STATUS_FULFILLED, VRes c, r0)"
      using pending by (simp add: eq settlement_def)
    have heap: "length (heap (processRes s c i v)) = length (heap s)"
      by (simp add: eq resolve_cap_plain invokeArrayFns_eq)
    have alls: "alls (processRes s c i v) = (alls s)[c := ?a1]"
      by (simp add: eq alls_resolve_cap)
    show ?thesis
      unfolding collecting_def
      using c n t cnt fin sub assms(2) p True set vals1 len1
      by (simp add: alls heap card del: fun_upd_apply)
  next
    case False
    have eq: "processRes s c i v = ?s1"
      using False n cnt by (simp add: processRes_def Let_def)
    have set: "settlement ?s1 p = (STATUS_PENDING, VNull, r0)"
      using pending by (simp add: settlement_def)
    show ?thesis
      unfolding collecting_def eq
      using c n t cnt fin sub assms(2) p False set vals1 len1 less
      by (simp add: card del: fun_upd_apply)
  qed
qed

lemma collecting_reports:
  assumes "collecting c n p r0 s m"
    and "distinct (map fst rs)" and "\<forall>(i, v) \<in> set rs. i < n \<and> m i = None"
  shows "collecting c n p r0 (report_all s c rs) (m ++ map_of rs)"
  using assms
proof (induction rs arbitrary: s m)
  case Nil
  then show ?case by simp
next
  case (Cons r rs)
  obtain i v where r: "r = (i, v)" by (cases r)
  from Cons.prems r have i: "i < n" "m i = None" and d: "distinct (map fst rs)"
    and notin: "i \<notin> fst ` set rs"
    and rest: "\<forall>(j, w) \<in> set rs. j < n \<and> m j = None"
    by auto
  have step: "collecting c n p r0 (processRes s c i v) (m(i \<mapsto> v))"
    by (rule collecting_step[OF Cons.prems(1) i])
  have rest': "\<forall>(j, w) \<in> set rs. j < n \<and> (m(i \<mapsto> v)) j = None"
    using rest notin by (fastforce simp: image_iff)
  have eq: "m ++ map_of (r # rs) = m(i \<mapsto> v) ++ map_of rs"
    using notin r by (simp add: map_add_upd_left dom_map_of_conv_image_fst)
  have "report_all s c (r # rs) = report_all (processRes s c i v) c rs"
    by (simp add: r)
  with Cons.IH[OF step d rest'] show ?case by (simp only: eq)
qed

text \<open>
  Whatever the order in which the slots report, as long as each slot reports once and the
  length of the input does not change: the combined promise is pending while a slot is
  missing, and with the last report it is fulfilled with the array that has the value of
  slot \<open>i\<close> at index \<open>i\<close>.
\<close>

lemma all_reports_in_index_order:
  assumes c: "c < length (alls s)"
    and a: "alls s ! c = \<lparr>fulfilledCount = 0, res = [], all_iterable = it, target = p\<rparr>"
    and it: "\<And>s'. array_length s' it = Some n"
    and p: "p < length (heap s)" "settlement s p = (STATUS_PENDING, VNull, r0)"
    and rs: "distinct (map fst rs)" "\<forall>(i, v) \<in> set rs. i < n"
    and n: "0 < n"
  shows "length rs < n \<Longrightarrow> settlement (report_all s c rs) p = (STATUS_PENDING, VNull, r0)"
    and "length rs = n \<Longrightarrow>
         settlement (report_all s c rs) p = (STATUS_FULFILLED, VRes c, r0) \<and>
         contents (report_all s c rs) (VRes c) = VArr (map (\<lambda>i. the (map_of rs i)) [0..<n])"
proof -
  let ?s = "report_all s c rs"
  have start: "collecting c n p r0 s Map.empty"
    using c a it p n by (simp add: collecting_def)
  have "collecting c n p r0 ?s (Map.empty ++ map_of rs)"
    using rs by (intro collecting_reports[OF start]) auto
  then have col: "collecting c n p r0 ?s (map_of rs)" by simp
  have card: "card (dom (map_of rs)) = length rs"
    using distinct_card[OF rs(1)] by (simp add: dom_map_of_conv_image_fst)
  show "length rs < n \<Longrightarrow> settlement ?s p = (STATUS_PENDING, VNull, r0)"
    using col card by (simp add: collecting_def)
  assume full: "length rs = n"
  from col have sub: "dom (map_of rs) \<subseteq> {..<n}" and fin: "finite (dom (map_of rs))"
    and len: "length (res (alls ?s ! c)) \<le> n"
    and vals: "\<And>i v. map_of rs i = Some v \<Longrightarrow>
                 i < length (res (alls ?s ! c)) \<and> res (alls ?s ! c) ! i = v"
    unfolding collecting_def by blast+
  have dom: "dom (map_of rs) = {..<n}"
    using sub card full by (intro card_subset_eq) simp_all
  have each: "i < length (res (alls ?s ! c)) \<and> res (alls ?s ! c) ! i = the (map_of rs i)"
    if "i < n" for i
  proof -
    from that dom obtain v where "map_of rs i = Some v" by blast
    with vals[OF this] show ?thesis by simp
  qed
  from n have "n - 1 < n" by simp
  from each[OF this] len n have "length (res (alls ?s ! c)) = n"
    by linarith
  then have "res (alls ?s ! c) = map (\<lambda>i. the (map_of rs i)) [0..<n]"
    using each by (intro nth_equalityI) simp_all
  then show "settlement ?s p = (STATUS_FULFILLED, VRes c, r0) \<and>
         contents ?s (VRes c) = VArr (map (\<lambda>i. the (map_of rs i)) [0..<n])"
    using col card full by (simp add: collecting_def)
qed

text \<open>\<^verbatim>\<open>all\<close> of an array of values none of which is a thenable is fulfilled at once, with
  an array of the same values in the same order (an empty slot of the input is read as
  \<^verbatim>\<open>undefined\<close>).\<close>

lemma all_loop_plain:
  assumes "\<forall>x \<in> set xs. shape_of x = Primitive \<or> then_member (shape_of x) = Some ThenNone"
  shows "all_loop st c p i xs = (report_all st c (zip [i..<i + length xs] xs), None)"
  using assms
proof (induction xs arbitrary: st i)
  case Nil
  show ?case by simp
next
  case (Cons x xs)
  from Cons.prems have none: "invoke_then st x (All_value c i) (All_reason p) = None"
    by (auto simp: invoke_then_cases)
  have "[i..<i + length (x # xs)] = i # [Suc i..<Suc i + length xs]"
    using upt_conv_Cons[of i "i + length (x # xs)"] by simp
  with Cons.IH[of "processRes st c i x" "Suc i"] Cons.prems none show ?case
    by simp
qed

lemma shape_of_read_slot: "shape_of (read_slot x) = shape_of x"
  by (simp add: read_slot_def)

lemma all_of_plain_values:
  assumes plain: "\<forall>x \<in> set xs. shape_of x = Primitive \<or> then_member (shape_of x) = Some ThenNone"
    and ne: "xs \<noteq> []"
  shows "snd (promise_all st (VArr xs)) = VPromise (length (heap st)) \<and>
    settlement (fst (promise_all st (VArr xs))) (length (heap st)) =
      (STATUS_FULFILLED, VRes (length (alls st)), VNull) \<and>
    contents (fst (promise_all st (VArr xs))) (VRes (length (alls st))) =
      VArr (map read_slot xs)"
proof -
  let ?p = "length (heap st)" and ?c = "length (alls st)" and ?n = "length xs"
  let ?ys = "map read_slot xs"
  let ?s2 = "(fst (new_promise st))\<lparr>alls := alls (fst (new_promise st)) @
      [\<lparr>fulfilledCount = 0, res = [], all_iterable = VArr xs, target = ?p\<rparr>]\<rparr>"
  let ?rs = "zip [0..<?n] ?ys"
  have plain': "\<forall>x \<in> set ?ys. shape_of x = Primitive \<or> then_member (shape_of x) = Some ThenNone"
    using plain by (simp add: shape_of_read_slot)
  have eq: "promise_all st (VArr xs) = (report_all ?s2 ?c ?rs, VPromise ?p)"
    using ne all_loop_plain[OF plain', of ?s2 ?c ?p 0]
    by (simp add: promise_all_def Let_def split_beta new_promise_simps)
  have c: "?c < length (alls ?s2)"
    and a: "alls ?s2 ! ?c = \<lparr>fulfilledCount = 0, res = [], all_iterable = VArr xs, target = ?p\<rparr>"
    and p: "?p < length (heap ?s2)" "settlement ?s2 ?p = (STATUS_PENDING, VNull, VNull)"
    by (simp_all add: new_promise_simps settlement_def)
  have it: "\<And>s'. array_length s' (VArr xs) = Some ?n" by simp
  have rs: "distinct (map fst ?rs)" "\<forall>(i, v) \<in> set ?rs. i < ?n"
    by (auto simp: set_zip)
  have n: "0 < ?n" using ne by simp
  have len: "length ?rs = ?n" by simp
  from all_reports_in_index_order(2)[OF c a it p rs n len]
  have set: "settlement (report_all ?s2 ?c ?rs) ?p = (STATUS_FULFILLED, VRes ?c, VNull)"
    and cont: "contents (report_all ?s2 ?c ?rs) (VRes ?c) =
        VArr (map (\<lambda>i. the (map_of ?rs i)) [0..<?n])"
    by simp_all
  have "map (\<lambda>i. the (map_of ?rs i)) [0..<?n] = ?ys"
  proof (rule nth_equalityI)
    show "length (map (\<lambda>i. the (map_of ?rs i)) [0..<?n]) = length ?ys" by simp
    fix i assume "i < length (map (\<lambda>i. the (map_of ?rs i)) [0..<?n])"
    then have i: "i < ?n" by simp
    have "map_of ?rs ([0..<?n] ! i) = Some (?ys ! i)"
      using i by (intro map_of_zip_nth) simp_all
    with i show "map (\<lambda>i. the (map_of ?rs i)) [0..<?n] ! i = ?ys ! i" by simp
  qed
  with set cont show ?thesis by (simp add: eq)
qed
section \<open>\<^verbatim>\<open>all\<close>\<close>

text \<open>
  The example of the specification: \<^verbatim>\<open>all([slow, 1, fast])\<close>, where \<^verbatim>\<open>fast\<close> is fulfilled
  before \<^verbatim>\<open>slow\<close>.  The combined promise is pending after the first settlement and is
  fulfilled after the second, with the values in the order of the input.
\<close>

lemma all_order_example:
  "(let s0 = fst (promise_all two_pending (VArr [VPromise 0, VNum 1, VPromise 1]));
        s1 = run 2 (fst (resolve_cap s0 1 (VStr ''fast'')));
        s2 = run 2 (fst (resolve_cap s1 0 (VStr ''slow'')))
    in (status (heap s1 ! 2), status (heap s2 ! 2), contents s2 (pvalue (heap s2 ! 2)))) =
   (STATUS_PENDING, STATUS_FULFILLED, VArr [VStr ''slow'', VNum 1, VStr ''fast''])"
  by code_simp

text \<open>
  C5.  \<^verbatim>\<open>all([twice, pending])\<close>, where the \<^verbatim>\<open>then\<close> of \<^verbatim>\<open>twice\<close> calls its first
  argument with 1 and again with 2, and \<^verbatim>\<open>pending\<close> is a pending promise: when \<^verbatim>\<open>all\<close>
  returns, the combined promise (number 1) is fulfilled, with the array \<^verbatim>\<open>[2]\<close>, and the
  second input (number 0) is still pending.  \<^verbatim>\<open>processRes\<close> counts calls, not slots.
\<close>

theorem all_counts_calls:
  "(let st = fst (promise_all pending_example (VArr [twice, VPromise 0]))
    in (snd (promise_all pending_example (VArr [twice, VPromise 0])),
        status (heap st ! 0), settlement st 1, contents st (pvalue (heap st ! 1)))) =
   (VPromise 1, STATUS_PENDING, (STATUS_FULFILLED, VRes 0, VNull), VArr [VNum 2])"
  by (simp add: twice_def examples_eq promise_all_def new_promise_def invoke_then_def
      processRes_def array_set_def resolve_cap_def settlement_def then_method_def then_executor_def
      read_slot_def Let_def)

section \<open>\<^verbatim>\<open>allSettled\<close>\<close>

text \<open>
  The example of the specification: \<^verbatim>\<open>allSettled([Promise.reject('x'), 1])\<close>.  After four
  turns of the event loop the promise returned is fulfilled with the two records.
\<close>

lemma allSettled_example:
  "(case promise_allSettled (fst (promise_reject init_state (VStr ''x'')))
           (VArr [VPromise 0, VNum 1]) of
      Inr (s0, r) \<Rightarrow> (r, let s = run 4 s0 in (status (heap s ! 4), contents s (pvalue (heap s ! 4))))
    | Inl e \<Rightarrow> (e, STATUS_PENDING, VUndef)) =
   (VPromise 4, STATUS_FULFILLED,
    VArr [VOutcome STATUS_REJECTED (VStr ''x''), VOutcome STATUS_FULFILLED (VNum 1)])"
  by code_simp

text \<open>
  C7.  \<^verbatim>\<open>allSettled\<close> of an array whose element is an object with a \<^verbatim>\<open>then\<close> accessor that
  throws: the exception leaves \<^verbatim>\<open>allSettled\<close>, which returns no promise.  And of an array
  whose element is a function with a \<^verbatim>\<open>then\<close> that calls its second argument with \<open>x\<close>:
  the promise returned is fulfilled with a record that reports the function itself as
  fulfilled.
\<close>

theorem allSettled_throws:
  "promise_allSettled init_state (VArr [VObj (ThenGetterThrows (VStr ''boom''))]) =
     Inl (VStr ''boom'') \<and>
   (case promise_allSettled init_state (VArr [VFunc (ThenFn [CallSecond (VStr ''x'')])]) of
      Inr (s0, r) \<Rightarrow> (r, let s = run 4 s0 in (status (heap s ! 2), contents s (pvalue (heap s ! 2))))
    | Inl e \<Rightarrow> (e, STATUS_PENDING, VUndef)) =
   (VPromise 2, STATUS_FULFILLED,
    VArr [VOutcome STATUS_FULFILLED (VFunc (ThenFn [CallSecond (VStr ''x'')]))])"
proof
  show "promise_allSettled init_state (VArr [VObj (ThenGetterThrows (VStr ''boom''))]) =
     Inl (VStr ''boom'')"
    by (simp add: promise_allSettled_def promise_resolve_def read_slot_def)
  show "(case promise_allSettled init_state (VArr [VFunc (ThenFn [CallSecond (VStr ''x'')])]) of
      Inr (s0, r) \<Rightarrow> (r, let s = run 4 s0 in (status (heap s ! 2), contents s (pvalue (heap s ! 2))))
    | Inl e \<Rightarrow> (e, STATUS_PENDING, VUndef)) =
   (VPromise 2, STATUS_FULFILLED,
    VArr [VOutcome STATUS_FULFILLED (VFunc (ThenFn [CallSecond (VStr ''x'')]))])"
    by code_simp
qed

end
